theory Spec2Isabelle
  imports Main "HOL-Library.Word"
begin

section \<open>Library management: records, text persistence, autosave loop\<close>

text \<open>
  A shallow embedding of \<^verbatim>\<open>xyz.cpp\<close> (the file calls itself
  \<^verbatim>\<open>advanced_library.cpp\<close>): the \<^verbatim>\<open>Book\<close> record with its text
  serialization, the generic \<^verbatim>\<open>Repository\<close> with \<^verbatim>\<open>save_to_file\<close> and
  \<^verbatim>\<open>load_from_file\<close>, and the \<^verbatim>\<open>Library\<close> controller with its identity
  counter and its autosave thread.

  A \<^verbatim>\<open>std::string\<close> is a list of bytes (\<^typ>\<open>string\<close>), \<^verbatim>\<open>unsigned long long\<close>
  is \<^typ>\<open>64 word\<close>, \<^verbatim>\<open>int\<close> is \<^typ>\<open>32 word\<close> read by \<^const>\<open>sint\<close>. A C++ exception
  is a value of type \<open>exn\<close>, returned on the left of a sum.
\<close>

subsection \<open>Characters\<close>

definition NL :: char where
  "NL = CHR 0x0A"

definition TAB :: char where
  "TAB = CHR 0x09"

definition CR :: char where
  "CR = CHR 0x0D"

definition VT :: char where
  "VT = CHR 0x0B"

definition FF :: char where
  "FF = CHR 0x0C"

text \<open>The set \<^verbatim>\<open>" \t\r\n"\<close> that \<^verbatim>\<open>trim\<close> strips.\<close>

definition trim_ws :: "char \<Rightarrow> bool" where
  "trim_ws c = (c = CHR '' '' \<or> c = TAB \<or> c = CR \<or> c = NL)"

text \<open>\<^verbatim>\<open>isspace\<close> in the C locale, which \<^verbatim>\<open>strtoull\<close> and \<^verbatim>\<open>strtol\<close> skip.\<close>

definition isspace :: "char \<Rightarrow> bool" where
  "isspace c = (c = CHR '' '' \<or> c = TAB \<or> c = NL \<or> c = VT \<or> c = FF \<or> c = CR)"

definition isdigit :: "char \<Rightarrow> bool" where
  "isdigit c = (48 \<le> (of_char c :: nat) \<and> (of_char c :: nat) \<le> 57)"

definition digit_val :: "char \<Rightarrow> nat" where
  "digit_val c = of_char c - 48"

definition digit_char :: "nat \<Rightarrow> char" where
  "digit_char d = char_of (48 + d)"

subsection \<open>Utilities: \<^verbatim>\<open>trim\<close> and \<^verbatim>\<open>split\<close>\<close>

text \<open>
  \<^verbatim>\<open>trim\<close> returns the empty string when every character is in the set, and otherwise
  the substring from the first to the last character outside it.
\<close>

definition trim :: "string \<Rightarrow> string" where
  "trim s = rev (dropWhile trim_ws (rev (dropWhile trim_ws s)))"

text \<open>
  \<^verbatim>\<open>while (getline(ss, cur, delim)) out.push_back(cur)\<close>: \<^verbatim>\<open>getline\<close> extracts
  characters into \<open>cur\<close> up to the delimiter, which it consumes, or up to the end of the
  input; it fails, ending the loop, when it reaches the end having extracted nothing.
  \<open>getline_loop delim cur s\<close> is the loop with \<open>cur\<close> the characters of the running
  \<^verbatim>\<open>getline\<close> call and \<open>s\<close> the input left.
\<close>

fun getline_loop :: "char \<Rightarrow> string \<Rightarrow> string \<Rightarrow> string list" where
  "getline_loop delim cur [] = (if cur = [] then [] else [cur])"
| "getline_loop delim cur (c # cs) =
     (if c = delim then cur # getline_loop delim [] cs
      else getline_loop delim (cur @ [c]) cs)"

definition split :: "string \<Rightarrow> char \<Rightarrow> string list" where
  "split s delim = getline_loop delim [] s"

subsection \<open>Numbers as text: \<^verbatim>\<open>to_string\<close>, \<^verbatim>\<open>stoull\<close>, \<^verbatim>\<open>stoi\<close>\<close>

fun to_digits :: "nat \<Rightarrow> string" where
  "to_digits n =
     (if n < 10 then [digit_char n]
      else to_digits (n div 10) @ [digit_char (n mod 10)])"

declare to_digits.simps [simp del]

text \<open>\<^verbatim>\<open>to_string(unsigned long long)\<close> and \<^verbatim>\<open>to_string(int)\<close>.\<close>

definition to_string_ull :: "64 word \<Rightarrow> string" where
  "to_string_ull v = to_digits (unat v)"

definition to_string_int :: "32 word \<Rightarrow> string" where
  "to_string_int v =
     (if sint v < 0 then CHR ''-'' # to_digits (nat (- sint v))
      else to_digits (nat (sint v)))"

datatype exn =
    Runtime_error string
  | Invalid_argument string
  | Out_of_range string

fun what :: "exn \<Rightarrow> string" where
  "what (Runtime_error m) = m"
| "what (Invalid_argument m) = m"
| "what (Out_of_range m) = m"

definition dec_value :: "string \<Rightarrow> nat" where
  "dec_value ds = foldl (\<lambda>acc c. 10 * acc + digit_val c) 0 ds"

text \<open>
  The subject sequence of \<^verbatim>\<open>strtoull\<close> and \<^verbatim>\<open>strtol\<close> in base 10: leading white
  space is skipped, then an optional sign, then the longest run of decimal digits;
  whatever follows the digits is ignored. \<open>None\<close> when there is no digit (no conversion);
  otherwise whether a minus sign was read, and the magnitude.
\<close>

definition strto :: "string \<Rightarrow> (bool \<times> nat) option" where
  "strto s =
     (let s1 = dropWhile isspace s;
          neg = (case s1 of [] \<Rightarrow> False | c # r \<Rightarrow> c = CHR ''-'');
          s2 = (case s1 of [] \<Rightarrow> []
                | c # r \<Rightarrow> if c = CHR ''-'' \<or> c = CHR ''+'' then r else s1);
          ds = takeWhile isdigit s2
      in if ds = [] then None else Some (neg, dec_value ds))"

text \<open>
  \<^verbatim>\<open>stoull\<close> throws \<^verbatim>\<open>invalid_argument\<close> when nothing was converted and
  \<^verbatim>\<open>out_of_range\<close> when \<^verbatim>\<open>strtoull\<close> reports \<^verbatim>\<open>ERANGE\<close> (the magnitude exceeds
  \<open>2^64 - 1\<close>); a minus sign negates the value in the unsigned type.
\<close>

definition stoull :: "string \<Rightarrow> exn + 64 word" where
  "stoull s =
     (case strto s of
        None \<Rightarrow> Inl (Invalid_argument ''stoull'')
      | Some (neg, m) \<Rightarrow>
          if m > 2 ^ 64 - 1 then Inl (Out_of_range ''stoull'')
          else Inr (if neg then - word_of_nat m else word_of_nat m))"

text \<open>
  \<^verbatim>\<open>stoi\<close> converts with \<^verbatim>\<open>strtol\<close> and throws \<^verbatim>\<open>out_of_range\<close> when the value
  does not fit an \<^verbatim>\<open>int\<close>.
\<close>

definition stoi :: "string \<Rightarrow> exn + 32 word" where
  "stoi s =
     (case strto s of
        None \<Rightarrow> Inl (Invalid_argument ''stoi'')
      | Some (neg, m) \<Rightarrow>
          (let v = (if neg then - int m else int m)
           in if v < - (2 ^ 31) \<or> v > 2 ^ 31 - 1 then Inl (Out_of_range ''stoi'')
              else Inr (word_of_int v)))"

subsection \<open>The \<^verbatim>\<open>Book\<close> class\<close>

record Book =
  book_id :: "64 word"
  title :: string
  author :: string
  year :: "32 word"
  checked_out :: bool

text \<open>The lambda \<^verbatim>\<open>safe\<close> of \<^verbatim>\<open>Book::serialize\<close>: every \<^verbatim>\<open>'|'\<close> becomes \<^verbatim>\<open>'/'\<close>.\<close>

definition safe :: "string \<Rightarrow> string" where
  "safe s = map (\<lambda>c. if c = CHR ''|'' then CHR ''/'' else c) s"

definition serialize :: "Book \<Rightarrow> string" where
  "serialize b =
     to_string_ull (book_id b) @ ''|'' @ safe (title b) @ ''|'' @ safe (author b) @ ''|''
       @ to_string_int (year b) @ ''|'' @ (if checked_out b then ''1'' else ''0'')"

definition deserialize :: "string \<Rightarrow> exn + Book" where
  "deserialize line =
     (let parts = split line CHR ''|''
      in if length parts < 5 then Inl (Runtime_error (''Bad record: '' @ line))
         else case stoull (parts ! 0) of
                Inl e \<Rightarrow> Inl e
              | Inr i \<Rightarrow>
                  (case stoi (parts ! 3) of
                     Inl e \<Rightarrow> Inl e
                   | Inr y \<Rightarrow>
                       Inr \<lparr>book_id = i, title = parts ! 1, author = parts ! 2, year = y,
                            checked_out = (parts ! 4 = ''1'')\<rparr>))"

subsection \<open>Fields and integers in the words of the specification\<close>

text \<open>
  Following the spec's words, not the code: the \<open>|\<close>-delimited fields of a line are the
  pieces between its delimiters, so that a line with \<open>n\<close> delimiters has \<open>n + 1\<close>
  fields, empty ones included.
\<close>

fun delimited :: "char \<Rightarrow> string \<Rightarrow> string \<Rightarrow> string list" where
  "delimited delim cur [] = [cur]"
| "delimited delim cur (c # cs) =
     (if c = delim then cur # delimited delim [] cs else delimited delim (cur @ [c]) cs)"

definition spec_fields :: "string \<Rightarrow> string list" where
  "spec_fields line = delimited CHR ''|'' [] line"

text \<open>
  Following the spec's words, not the code: a field is parseable as an integer when it
  is an integer written in decimal, an optional sign and then digits and nothing else.
\<close>

definition spec_integer :: "string \<Rightarrow> bool" where
  "spec_integer s =
     (let ds = (case s of [] \<Rightarrow> []
                | c # r \<Rightarrow> if c = CHR ''-'' \<or> c = CHR ''+'' then r else s)
      in ds \<noteq> [] \<and> list_all isdigit ds)"

text \<open>
  What the conversions of the code accept, said of the text and not by a procedure:
  \<open>number_at_front s neg m\<close> when \<open>s\<close> is white space, then an optional sign, then
  one or more decimal digits, then anything that does not go on with a digit; \<open>neg\<close>
  says that the sign is a minus, \<open>m\<close> is the number the digits denote.
\<close>

definition number_at_front :: "string \<Rightarrow> bool \<Rightarrow> nat \<Rightarrow> bool" where
  "number_at_front s neg m =
     (\<exists>ws sg ds rest.
        s = ws @ sg @ ds @ rest \<and> list_all isspace ws
        \<and> (sg = [] \<or> sg = ''+'' \<or> sg = ''-'') \<and> neg = (sg = ''-'')
        \<and> ds \<noteq> [] \<and> list_all isdigit ds \<and> (rest = [] \<or> \<not> isdigit (hd rest))
        \<and> m = dec_value ds)"

subsection \<open>The \<^verbatim>\<open>Repository\<close> template and the files it uses\<close>

text \<open>
  The repository's \<^verbatim>\<open>items_\<close> is the list of its records in insertion order. The
  file system is what the two streams see of it: \<open>files fs name\<close> is the content of
  the file \<open>name\<close>, \<open>None\<close> when \<^verbatim>\<open>ifstream fin(name)\<close> fails to open it;
  \<open>opens fs name\<close> says whether \<^verbatim>\<open>ofstream fout(name, ios::trunc)\<close> opens it; and
  \<open>room fs name\<close> is the number of bytes the sink takes once it is open, \<open>None\<close> when
  it takes all it is given (a full device takes none). A file that was written can be
  read back.
\<close>

record fsys =
  files :: "string \<Rightarrow> string option"
  opens :: "string \<Rightarrow> bool"
  room :: "string \<Rightarrow> nat option"

text \<open>
  What reaches the file of the bytes written to an open stream: once a write fails the
  stream is bad and the insertions that follow do nothing, so the file is left with the
  bytes the sink took, a prefix of the output.
\<close>

definition reaches :: "fsys \<Rightarrow> string \<Rightarrow> string \<Rightarrow> string" where
  "reaches fs name bytes = (case room fs name of None \<Rightarrow> bytes | Some n \<Rightarrow> take n bytes)"

definition takes_all :: "fsys \<Rightarrow> string \<Rightarrow> string \<Rightarrow> bool" where
  "takes_all fs name bytes = (case room fs name of None \<Rightarrow> True | Some n \<Rightarrow> length bytes \<le> n)"

definition add :: "Book list \<Rightarrow> Book \<Rightarrow> Book list" where
  "add items obj = items @ [obj]"

definition all_items :: "Book list \<Rightarrow> Book list" where
  "all_items items = items"

text \<open>
  \<^verbatim>\<open>for (auto &u : items_) fout << u->serialize() << "\n"\<close>, with \<open>buf\<close> the
  characters written to \<^verbatim>\<open>fout\<close> so far.
\<close>

fun write_items :: "Book list \<Rightarrow> string \<Rightarrow> string" where
  "write_items [] buf = buf"
| "write_items (u # us) buf = write_items us (buf @ serialize u @ [NL])"

text \<open>
  \<^verbatim>\<open>save_to_file\<close> throws when the stream did not open, the only test it makes of the
  stream. Otherwise the file, opened with \<^verbatim>\<open>ios::trunc\<close>, starts empty; the function
  writes the lines and returns, whether the writes succeeded or not, and the file holds
  what reached it.
\<close>

definition save_to_file :: "Book list \<Rightarrow> string \<Rightarrow> fsys \<Rightarrow> exn + fsys" where
  "save_to_file items filename fs =
     (if \<not> opens fs filename
      then Inl (Runtime_error (''Failed to open '' @ filename @ '' for writing''))
      else Inr (fs\<lparr>files :=
             (files fs)(filename \<mapsto> reaches fs filename (write_items items []))\<rparr>))"

text \<open>
  The body of the \<^verbatim>\<open>while (getline(fin, line))\<close> loop of \<^verbatim>\<open>load_from_file\<close>, over
  the lines \<^verbatim>\<open>getline\<close> delivers. The state is \<^verbatim>\<open>items_\<close> and the messages written to
  \<^verbatim>\<open>cerr\<close>; the handler \<^verbatim>\<open>catch (exception &e)\<close> catches every exception
  \<^verbatim>\<open>deserialize\<close> throws.
\<close>

fun load_loop :: "string list \<Rightarrow> Book list \<Rightarrow> string list \<Rightarrow> Book list \<times> string list" where
  "load_loop [] items cerr = (items, cerr)"
| "load_loop (l # ls) items cerr =
     (let line = trim l
      in if line = [] then load_loop ls items cerr
         else case deserialize line of
                Inr p \<Rightarrow> load_loop ls (items @ [p]) cerr
              | Inl e \<Rightarrow>
                  load_loop ls items
                    (cerr @ [''Warning: skipping bad record: '' @ what e @ [NL]]))"

text \<open>
  \<^verbatim>\<open>load_from_file\<close> returns the new \<^verbatim>\<open>items_\<close> and the messages written to
  \<^verbatim>\<open>cerr\<close>. The return for a stream that did not open comes before
  \<^verbatim>\<open>items_.clear()\<close>.
\<close>

definition load_from_file :: "Book list \<Rightarrow> string \<Rightarrow> fsys \<Rightarrow> Book list \<times> string list" where
  "load_from_file items filename fs =
     (case files fs filename of
        None \<Rightarrow> (items, [])
      | Some content \<Rightarrow> load_loop (getline_loop NL [] content) [] [])"

subsection \<open>The \<^verbatim>\<open>Library\<close> controller\<close>

text \<open>
  \<^verbatim>\<open>for (auto p : all) if (p->id() >= next_id_) next_id_ = p->id() + 1\<close>, from the
  value \<open>next_id\<close> the counter has before the loop. The addition is that of
  \<^verbatim>\<open>unsigned long long\<close> and wraps around.
\<close>

fun compute_next_id :: "Book list \<Rightarrow> 64 word \<Rightarrow> 64 word" where
  "compute_next_id [] next_id = next_id"
| "compute_next_id (p # ps) next_id =
     compute_next_id ps (if book_id p \<ge> next_id then book_id p + 1 else next_id)"

text \<open>
  Modelled from the spec: the types of the controller's fields, whose declarations come
  after the point where the source text stops. The fields are those the constructor
  initializes; the counter holds identities, which are unsigned integers (spec 3), and
  has the type \<^verbatim>\<open>Book::id_t\<close> of the identities it is compared with and assigned from.
\<close>

record Library =
  dbfile :: string
  repo :: "Book list"
  next_id :: "64 word"
  stop_autosave :: bool

text \<open>The constructor up to the start of the autosave thread, with the messages on \<^verbatim>\<open>cerr\<close>.\<close>

definition Library_ctor :: "string \<Rightarrow> fsys \<Rightarrow> Library \<times> string list" where
  "Library_ctor file fs =
     (let (items, cerr) = load_from_file [] file fs
      in (\<lparr>dbfile = file, repo = items,
           next_id = compute_next_id (all_items items) 1,
           stop_autosave = False\<rparr>, cerr))"

subsection \<open>The autosave thread and the destructor\<close>

text \<open>
  The thread body is
  \<^verbatim>\<open>while (!stop_autosave_.load()) { sleep_for(10s); try { save(); } catch (...) {...} }\<close>
  and the destructor stores \<^verbatim>\<open>true\<close> into the flag and then joins the thread. The flag
  is a sequentially consistent atomic, so a run of the two is an interleaving of their
  steps. The thread is at the test of the flag, in the sleep, at the call of
  \<^verbatim>\<open>save()\<close>, or has left the loop; the call is counted in \<open>saves\<close> whether it returns
  or throws (the body of \<^verbatim>\<open>Library::save\<close> is not in the source text; a call is one
  write of the persisted file). How long the sleep lasts is not modelled. The destructor
  has not yet stored the flag, waits in \<^verbatim>\<open>join\<close>, or has returned from it.
\<close>

datatype loop_pc = At_test | At_sleep | At_save | Finished

datatype dtor_pc = Alive | Joining | Joined

record autosave =
  stop_flag :: bool
  loop :: loop_pc
  dtor :: dtor_pc
  saves :: nat

datatype actor = Autosave_thread | Destructor

definition thread_step :: "autosave \<Rightarrow> autosave" where
  "thread_step s =
     (case loop s of
        At_test \<Rightarrow> if stop_flag s then s\<lparr>loop := Finished\<rparr> else s\<lparr>loop := At_sleep\<rparr>
      | At_sleep \<Rightarrow> s\<lparr>loop := At_save\<rparr>
      | At_save \<Rightarrow> s\<lparr>loop := At_test, saves := saves s + 1\<rparr>
      | Finished \<Rightarrow> s)"

text \<open>
  Modelled from the spec: the end of the destructor. The source text stops inside it, at
  \<^verbatim>\<open>if (autosave_thread_.joinable()) autosa\<close>, after the store of the flag. By the
  spec (4.3, Stopped) the controller waits for the loop's thread to exit: the statement
  is the join of the thread, which returns once the thread has left its loop and blocks
  until then.
\<close>

definition dtor_step :: "autosave \<Rightarrow> autosave" where
  "dtor_step s =
     (case dtor s of
        Alive \<Rightarrow> s\<lparr>stop_flag := True, dtor := Joining\<rparr>
      | Joining \<Rightarrow> if loop s = Finished then s\<lparr>dtor := Joined\<rparr> else s
      | Joined \<Rightarrow> s)"

fun step :: "actor \<Rightarrow> autosave \<Rightarrow> autosave" where
  "step Autosave_thread s = thread_step s"
| "step Destructor s = dtor_step s"

text \<open>A schedule says whose step comes next; a blocked or finished actor's step changes nothing.\<close>

fun run :: "actor list \<Rightarrow> autosave \<Rightarrow> autosave" where
  "run [] s = s"
| "run (a # sched) s = run sched (step a s)"

definition started :: autosave where
  "started = \<lparr>stop_flag = False, loop = At_test, dtor = Alive, saves = 0\<rparr>"

definition thread_steps :: "actor list \<Rightarrow> nat" where
  "thread_steps sched = length (filter (\<lambda>a. a = Autosave_thread) sched)"

text \<open>
  How far the thread is from leaving the loop once the flag is set: three of its own
  steps from the sleep, two from the call of \<^verbatim>\<open>save()\<close>, one from the test.
\<close>

fun to_go :: "loop_pc \<Rightarrow> nat" where
  "to_go At_sleep = 3"
| "to_go At_save = 2"
| "to_go At_test = 1"
| "to_go Finished = 0"

section \<open>Properties\<close>

subsection \<open>Reading lines and fields\<close>

lemma getline_loop_field:
  "delim \<notin> set a \<Longrightarrow>
   getline_loop delim cur (a @ delim # rest) = (cur @ a) # getline_loop delim [] rest"
  by (induction a arbitrary: cur) auto

lemma getline_loop_last:
  "delim \<notin> set a \<Longrightarrow> getline_loop delim cur a = (if cur @ a = [] then [] else [cur @ a])"
  by (induction a arbitrary: cur) auto

lemma isdigit_digit_char: "d < 10 \<Longrightarrow> isdigit (digit_char d)"
  by (simp add: isdigit_def digit_char_def)

lemma digit_val_digit_char: "d < 10 \<Longrightarrow> digit_val (digit_char d) = d"
  by (simp add: digit_val_def digit_char_def)

lemma to_digits_nonempty: "to_digits n \<noteq> []"
  by (subst to_digits.simps) simp

lemma to_digits_isdigit: "c \<in> set (to_digits n) \<Longrightarrow> isdigit c"
proof (induction n arbitrary: c rule: to_digits.induct)
  case (1 n)
  show ?case
  proof (cases "n < 10")
    case True
    with "1.prems" show ?thesis
      by (subst (asm) to_digits.simps) (simp add: isdigit_digit_char)
  next
    case False
    with "1.prems" "1.IH" show ?thesis
      by (subst (asm) to_digits.simps) (auto simp: isdigit_digit_char)
  qed
qed

lemma dec_value_snoc: "dec_value (ds @ [c]) = 10 * dec_value ds + digit_val c"
  by (simp add: dec_value_def)

lemma dec_value_to_digits: "dec_value (to_digits n) = n"
proof (induction n rule: to_digits.induct)
  case (1 n)
  show ?case
  proof (cases "n < 10")
    case True
    then show ?thesis
      by (subst to_digits.simps) (simp add: dec_value_def digit_val_digit_char)
  next
    case False
    with "1.IH" show ?thesis
      by (subst to_digits.simps) (simp add: dec_value_snoc digit_val_digit_char)
  qed
qed

lemma isdigit_not_space: "isdigit c \<Longrightarrow> \<not> isspace c"
  by (auto simp: isdigit_def isspace_def TAB_def NL_def VT_def FF_def CR_def)

lemma isdigit_not_sign: "isdigit c \<Longrightarrow> c \<noteq> CHR ''-'' \<and> c \<noteq> CHR ''+''"
  by (auto simp: isdigit_def)

lemma isdigit_not_trim_ws: "isdigit c \<Longrightarrow> \<not> trim_ws c"
  by (auto simp: isdigit_def trim_ws_def TAB_def NL_def CR_def)

lemma isdigit_not_bar: "isdigit c \<Longrightarrow> c \<noteq> CHR ''|''"
  by (auto simp: isdigit_def)

lemma isdigit_not_NL: "isdigit c \<Longrightarrow> c \<noteq> NL"
  by (auto simp: isdigit_def NL_def)

lemma takeWhile_all: "(\<And>c. c \<in> set ds \<Longrightarrow> P c) \<Longrightarrow> takeWhile P ds = ds"
  by (simp add: takeWhile_eq_all_conv)

lemma strto_unsigned:
  assumes "ds \<noteq> []" and "\<forall>c\<in>set ds. isdigit c"
  shows "strto ds = Some (False, dec_value ds)"
proof -
  obtain c r where cr: "ds = c # r" using assms(1) by (cases ds) auto
  have dc: "isdigit c" using assms(2) cr by simp
  have tw: "takeWhile isdigit ds = ds" using assms(2) by simp
  have dw: "dropWhile isspace ds = ds" using cr dc isdigit_not_space by simp
  have s2: "(case ds of [] \<Rightarrow> [] | c # r \<Rightarrow> if c = CHR ''-'' \<or> c = CHR ''+'' then r else ds) = ds"
    using cr isdigit_not_sign [OF dc] by simp
  have ng: "(case ds of [] \<Rightarrow> False | c # r \<Rightarrow> c = CHR ''-'') = False"
    using cr isdigit_not_sign [OF dc] by simp
  show ?thesis
    unfolding strto_def Let_def dw s2 ng tw using assms(1) by simp
qed

lemma strto_minus:
  assumes "ds \<noteq> []" and "\<forall>c\<in>set ds. isdigit c"
  shows "strto (CHR ''-'' # ds) = Some (True, dec_value ds)"
proof -
  have tw: "takeWhile isdigit ds = ds" using assms(2) by simp
  have ns: "\<not> isspace CHR ''-''"
    by (simp add: isspace_def TAB_def NL_def VT_def FF_def CR_def)
  show ?thesis
    by (simp add: strto_def Let_def ns tw assms(1))
qed

lemma strto_digits: "strto (to_digits n) = Some (False, n)"
  using strto_unsigned [of "to_digits n"] to_digits_nonempty [of n] to_digits_isdigit [of _ n]
  by (simp add: dec_value_to_digits)

lemma strto_minus_digits: "strto (CHR ''-'' # to_digits n) = Some (True, n)"
  using strto_minus [of "to_digits n"] to_digits_nonempty [of n] to_digits_isdigit [of _ n]
  by (simp add: dec_value_to_digits)

lemma stoull_to_string: "stoull (to_string_ull v) = Inr v"
proof -
  have "unat v < 2 ^ 64" using unsigned_less [of v, where 'a = nat] by simp
  then have "\<not> unat v > 2 ^ 64 - 1" by simp
  then show ?thesis
    by (simp add: stoull_def to_string_ull_def strto_digits del: One_nat_def)
qed

lemma stoi_to_string: "stoi (to_string_int v) = Inr v"
proof -
  have lo: "- (2 ^ 31) \<le> sint v" using sint_ge [of v] by simp
  have hi: "sint v < 2 ^ 31" using sint_lt [of v] by simp
  show ?thesis
  proof (cases "sint v < 0")
    case True
    have "stoi (to_string_int v) = stoi (CHR ''-'' # to_digits (nat (- sint v)))"
      using True by (simp add: to_string_int_def)
    also have "\<dots> = Inr (word_of_int (- int (nat (- sint v))))"
      using True lo by (simp add: stoi_def strto_minus_digits Let_def)
    also have "- int (nat (- sint v)) = sint v" using True by simp
    finally show ?thesis by simp
  next
    case False
    have "stoi (to_string_int v) = stoi (to_digits (nat (sint v)))"
      using False by (simp add: to_string_int_def)
    also have "\<dots> = Inr (word_of_int (int (nat (sint v))))"
      using False hi by (simp add: stoi_def strto_digits Let_def)
    also have "int (nat (sint v)) = sint v" using False by simp
    finally show ?thesis by simp
  qed
qed

subsection \<open>A serialized record read back\<close>

lemma bar_notin_safe: "CHR ''|'' \<notin> set (safe s)"
  by (auto simp: safe_def)

lemma NL_notin_safe: "NL \<notin> set s \<Longrightarrow> NL \<notin> set (safe s)"
  by (auto simp: safe_def NL_def)

lemma to_string_ull_digits: "c \<in> set (to_string_ull v) \<Longrightarrow> isdigit c"
  by (simp add: to_string_ull_def to_digits_isdigit)

lemma to_string_int_chars: "c \<in> set (to_string_int v) \<Longrightarrow> isdigit c \<or> c = CHR ''-''"
  by (auto simp: to_string_int_def to_digits_isdigit split: if_splits)

lemma bar_notin_ull: "CHR ''|'' \<notin> set (to_string_ull v)"
  using to_string_ull_digits isdigit_not_bar by blast

lemma bar_notin_int: "CHR ''|'' \<notin> set (to_string_int v)"
  using to_string_int_chars [of "CHR ''|''" v] isdigit_not_bar by auto

lemma NL_notin_ull: "NL \<notin> set (to_string_ull v)"
  using to_string_ull_digits isdigit_not_NL by blast

lemma NL_notin_int: "NL \<notin> set (to_string_int v)"
  using to_string_int_chars [of NL v] isdigit_not_NL by (auto simp: NL_def)

lemma split_serialize:
  "split (serialize b) CHR ''|'' =
     [to_string_ull (book_id b), safe (title b), safe (author b), to_string_int (year b),
      if checked_out b then ''1'' else ''0'']"
proof -
  let ?flag = "if checked_out b then ''1'' else ''0''"
  have flag: "getline_loop CHR ''|'' [] ?flag = [?flag]"
    by simp
  have "split (serialize b) CHR ''|'' =
          getline_loop CHR ''|'' []
            (to_string_ull (book_id b) @ CHR ''|'' #
              (safe (title b) @ CHR ''|'' #
                (safe (author b) @ CHR ''|'' # (to_string_int (year b) @ CHR ''|'' # ?flag))))"
    by (simp add: split_def serialize_def)
  also have "\<dots> = [to_string_ull (book_id b), safe (title b), safe (author b),
                     to_string_int (year b), ?flag]"
    by (simp only: getline_loop_field [OF bar_notin_ull] getline_loop_field [OF bar_notin_safe]
          getline_loop_field [OF bar_notin_int] flag append_Nil)
  finally show ?thesis .
qed

lemma deserialize_serialize:
  "deserialize (serialize b) = Inr (b\<lparr>title := safe (title b), author := safe (author b)\<rparr>)"
  by (simp add: deserialize_def split_serialize stoull_to_string stoi_to_string Let_def)

lemma serialize_Cons: "\<exists>c r. serialize b = c # r \<and> isdigit c"
proof -
  obtain c r where cr: "to_string_ull (book_id b) = c # r"
    using to_digits_nonempty [of "unat (book_id b)"]
    by (cases "to_string_ull (book_id b)") (auto simp: to_string_ull_def)
  then have "isdigit c" using to_string_ull_digits [of c "book_id b"] by simp
  with cr show ?thesis by (simp add: serialize_def)
qed

lemma serialize_snoc: "\<exists>r c. serialize b = r @ [c] \<and> isdigit c"
proof (cases "checked_out b")
  case True
  have "isdigit CHR ''1''" by (simp add: isdigit_def)
  moreover have "serialize b =
      (to_string_ull (book_id b) @ ''|'' @ safe (title b) @ ''|'' @ safe (author b) @ ''|''
       @ to_string_int (year b) @ ''|'') @ [CHR ''1'']"
    using True by (simp add: serialize_def)
  ultimately show ?thesis by blast
next
  case False
  have "isdigit CHR ''0''" by (simp add: isdigit_def)
  moreover have "serialize b =
      (to_string_ull (book_id b) @ ''|'' @ safe (title b) @ ''|'' @ safe (author b) @ ''|''
       @ to_string_int (year b) @ ''|'') @ [CHR ''0'']"
    using False by (simp add: serialize_def)
  ultimately show ?thesis by blast
qed

lemma trim_serialize: "trim (serialize b) = serialize b"
proof -
  obtain c r where cr: "serialize b = c # r" and dc: "isdigit c"
    using serialize_Cons by blast
  obtain r' c' where rc: "serialize b = r' @ [c']" and dc': "isdigit c'"
    using serialize_snoc by blast
  have front: "dropWhile trim_ws (serialize b) = serialize b"
    using cr dc isdigit_not_trim_ws by simp
  have rear: "dropWhile trim_ws (rev (serialize b)) = rev (serialize b)"
    using rc dc' isdigit_not_trim_ws by simp
  show ?thesis by (simp add: trim_def front rear)
qed

lemma serialize_nonempty: "serialize b \<noteq> []"
  using serialize_Cons [of b] by auto

lemma NL_notin_serialize:
  "NL \<notin> set (title b) \<Longrightarrow> NL \<notin> set (author b) \<Longrightarrow> NL \<notin> set (serialize b)"
  by (simp add: serialize_def NL_notin_safe NL_notin_ull NL_notin_int)
    (simp add: NL_def)

subsection \<open>Saving and loading\<close>

lemma write_items_concat:
  "write_items items buf = buf @ concat (map (\<lambda>u. serialize u @ [NL]) items)"
  by (induction items arbitrary: buf) auto

lemma getline_loop_lines:
  "\<forall>l\<in>set ls. NL \<notin> set l \<Longrightarrow>
   getline_loop NL [] (concat (map (\<lambda>l. l @ [NL]) ls)) = ls"
proof (induction ls)
  case Nil
  then show ?case by simp
next
  case (Cons l ls)
  then have "NL \<notin> set l" by simp
  then have "getline_loop NL [] (l @ NL # concat (map (\<lambda>l. l @ [NL]) ls)) =
               ([] @ l) # getline_loop NL [] (concat (map (\<lambda>l. l @ [NL]) ls))"
    by (rule getline_loop_field)
  with Cons show ?case by simp
qed

lemma load_loop_serialized:
  "load_loop (map serialize items) acc cerr =
     (acc @ map (\<lambda>b. b\<lparr>title := safe (title b), author := safe (author b)\<rparr>) items, cerr)"
  by (induction items arbitrary: acc)
    (simp_all add: trim_serialize serialize_nonempty deserialize_serialize)

lemma load_loop_append:
  "load_loop (ls1 @ ls2) items cerr =
     (case load_loop ls1 items cerr of (items', cerr') \<Rightarrow> load_loop ls2 items' cerr')"
  by (induction ls1 arbitrary: items cerr) (auto simp: Let_def split: sum.splits)

lemma reaches_takes_all: "takes_all fs name bytes \<Longrightarrow> reaches fs name bytes = bytes"
  by (simp add: takes_all_def reaches_def split: option.splits)

lemma reaches_prefix: "\<exists>n. reaches fs name bytes = take n bytes"
proof (cases "room fs name")
  case None
  then have "reaches fs name bytes = take (length bytes) bytes" by (simp add: reaches_def)
  then show ?thesis by blast
next
  case (Some n)
  then have "reaches fs name bytes = take n bytes" by (simp add: reaches_def)
  then show ?thesis by blast
qed

lemma save_to_file_taken:
  "opens fs filename \<Longrightarrow>
   takes_all fs filename (concat (map (\<lambda>u. serialize u @ [NL]) items)) \<Longrightarrow>
   save_to_file items filename fs =
     Inr (fs\<lparr>files := (files fs)(filename \<mapsto> concat (map (\<lambda>u. serialize u @ [NL]) items))\<rparr>)"
  by (simp add: save_to_file_def write_items_concat reaches_takes_all)

lemma lines_of_saved:
  assumes "\<forall>b\<in>set items. NL \<notin> set (title b) \<and> NL \<notin> set (author b)"
  shows "getline_loop NL [] (concat (map (\<lambda>u. serialize u @ [NL]) items)) = map serialize items"
proof -
  have "\<forall>l\<in>set (map serialize items). NL \<notin> set l"
    using assms by (simp add: NL_notin_serialize)
  then have "getline_loop NL [] (concat (map (\<lambda>l. l @ [NL]) (map serialize items))) =
               map serialize items"
    by (rule getline_loop_lines)
  then show ?thesis by (simp add: comp_def)
qed

subsection \<open>Evaluation of concrete inputs\<close>

lemma digit_char_eval:
  "digit_char 0 = CHR ''0''" "digit_char 1 = CHR ''1''" "digit_char 2 = CHR ''2''"
  "digit_char 3 = CHR ''3''" "digit_char 4 = CHR ''4''" "digit_char 5 = CHR ''5''"
  "digit_char 6 = CHR ''6''" "digit_char 7 = CHR ''7''" "digit_char 8 = CHR ''8''"
  "digit_char 9 = CHR ''9''" "digit_char (Suc 0) = CHR ''1''"
  unfolding digit_char_def by (simp_all add: char_of_eq_iff)

lemmas chars_eval = NL_def TAB_def CR_def VT_def FF_def trim_ws_def isspace_def isdigit_def
  digit_val_def digit_char_eval

lemmas text_eval = trim_def split_def to_string_ull_def to_string_int_def to_digits.simps
  dec_value_def strto_def stoull_def stoi_def safe_def serialize_def deserialize_def Let_def

lemmas repo_eval = save_to_file_def reaches_def takes_all_def load_from_file_def
  Library_ctor_def all_items_def

subsection \<open>Round trip\<close>

text \<open>
  C1, as amended. For every sequence of records whose titles and authors contain no
  newline character, saving it to a sink that can be written (it opens and takes every
  byte) and loading that sink back, whatever the store held before the load, yields the
  same records in the same order: same identities, years and checked-out flags, and
  titles and authors in which every \<open>|\<close> has become \<open>/\<close>; and the load writes no
  warning.
\<close>

theorem save_load_round_trip:
  assumes "\<forall>b\<in>set items. NL \<notin> set (title b) \<and> NL \<notin> set (author b)"
    and "opens fs filename"
    and "takes_all fs filename (concat (map (\<lambda>u. serialize u @ [NL]) items))"
  shows "\<exists>fs'. save_to_file items filename fs = Inr fs' \<and>
           load_from_file prior filename fs' =
             (map (\<lambda>b. b\<lparr>title := safe (title b), author := safe (author b)\<rparr>) items, [])"
proof -
  let ?content = "concat (map (\<lambda>u. serialize u @ [NL]) items)"
  let ?fs' = "fs\<lparr>files := (files fs)(filename \<mapsto> ?content)\<rparr>"
  have saved: "save_to_file items filename fs = Inr ?fs'"
    using assms(2,3) by (rule save_to_file_taken)
  have lines: "getline_loop NL [] ?content = map serialize items"
    using assms(1) by (rule lines_of_saved)
  have "load_from_file prior filename ?fs' =
          (map (\<lambda>b. b\<lparr>title := safe (title b), author := safe (author b)\<rparr>) items, [])"
    by (simp add: load_from_file_def lines load_loop_serialized)
  with saved show ?thesis by blast
qed

theorem save_load_round_trip_witness:
  "\<exists>fs'. save_to_file
            [\<lparr>book_id = 7, title = ''a|b'', author = ''x y'', year = - 44, checked_out = True\<rparr>]
            ''db'' \<lparr>files = (\<lambda>n. None), opens = (\<lambda>n. True), room = (\<lambda>n. None)\<rparr> = Inr fs' \<and>
         load_from_file [] ''db'' fs' =
           ([\<lparr>book_id = 7, title = ''a/b'', author = ''x y'', year = - 44, checked_out = True\<rparr>], [])"
  using save_load_round_trip
    [of "[\<lparr>book_id = 7, title = ''a|b'', author = ''x y'', year = - 44, checked_out = True\<rparr>]"
        "\<lparr>files = (\<lambda>n. None), opens = (\<lambda>n. True), room = (\<lambda>n. None)\<rparr>" "''db''" "[]"]
  by (simp add: safe_def NL_def takes_all_def)

text \<open>
  A record whose title holds a newline is written as two lines, neither of which parses:
  nothing is loaded back, and two warnings are written.
\<close>

theorem save_load_round_trip_counterexample:
  "\<exists>fs'. save_to_file
            [\<lparr>book_id = 1, title = [CHR ''a'', NL, CHR ''b''], author = ''x'', year = 2000,
              checked_out = False\<rparr>]
            ''db'' \<lparr>files = (\<lambda>n. None), opens = (\<lambda>n. True), room = (\<lambda>n. None)\<rparr> = Inr fs' \<and>
         load_from_file [] ''db'' fs' =
           ([], [''Warning: skipping bad record: Bad record: 1|a'' @ [NL],
                 ''Warning: skipping bad record: Bad record: b|x|2000|0'' @ [NL]])"
  by (simp add: chars_eval text_eval repo_eval)

subsection \<open>Parsing a record\<close>

text \<open>
  The number of fields \<^verbatim>\<open>split\<close> delivers: one per delimiter, and one more for
  what follows the last delimiter unless that is empty. A line that ends in the
  delimiter has no field after it, and the empty line has no field at all.
\<close>

lemma length_getline_loop:
  "length (getline_loop delim cur s) =
     count_list s delim + (if (if s = [] then cur = [] else last s = delim) then 0 else 1)"
  by (induction s arbitrary: cur) auto

lemma length_split:
  "length (split line delim) =
     count_list line delim + (if line = [] \<or> last line = delim then 0 else 1)"
  by (auto simp: split_def length_getline_loop)

text \<open>
  The fields \<^verbatim>\<open>split\<close> delivers are the \<open>|\<close>-delimited fields of the line, except
  that an empty last one is left out.
\<close>

lemma delimited_nonempty: "delimited delim cur s \<noteq> []"
  by (induction s arbitrary: cur) auto

lemma getline_loop_delimited:
  "getline_loop delim cur s =
     (if last (delimited delim cur s) = [] then butlast (delimited delim cur s)
      else delimited delim cur s)"
  by (induction s arbitrary: cur) (auto simp: delimited_nonempty)

lemma split_spec_fields:
  "split line CHR ''|'' =
     (if last (spec_fields line) = [] then butlast (spec_fields line) else spec_fields line)"
  by (simp add: split_def spec_fields_def getline_loop_delimited)

lemma delimited_join:
  "delim \<notin> set f \<Longrightarrow> delimited delim cur (f @ delim # s) = (cur @ f) # delimited delim [] s"
  by (induction f arbitrary: cur) auto

lemma delimited_last: "delim \<notin> set f \<Longrightarrow> delimited delim cur f = [cur @ f]"
  by (induction f arbitrary: cur) auto

lemma length_delimited: "length (delimited delim cur s) = count_list s delim + 1"
  by (induction s arbitrary: cur) auto

lemma length_spec_fields: "length (spec_fields line) = count_list line CHR ''|'' + 1"
  by (simp add: spec_fields_def length_delimited)

lemma split_too_short_iff:
  "length (split line CHR ''|'') < 5 \<longleftrightarrow>
     length (spec_fields line) < 5
     \<or> (length (spec_fields line) = 5 \<and> spec_fields line ! 4 = [])"
proof -
  let ?sf = "spec_fields line"
  have ne: "?sf \<noteq> []" by (simp add: spec_fields_def delimited_nonempty)
  then have l: "last ?sf = ?sf ! (length ?sf - 1)" by (rule last_conv_nth)
  show ?thesis
  proof (cases "last ?sf = []")
    case True
    then have "length (split line CHR ''|'') = length ?sf - 1"
      by (simp add: split_spec_fields)
    with True l ne show ?thesis by (cases "length ?sf = 5") auto
  next
    case False
    then have "length (split line CHR ''|'') = length ?sf"
      by (simp add: split_spec_fields)
    with False l show ?thesis by auto
  qed
qed

lemma split_nth_spec_fields:
  assumes "\<not> length (split line CHR ''|'') < 5" and "k < 5"
  shows "split line CHR ''|'' ! k = spec_fields line ! k"
proof (cases "last (spec_fields line) = []")
  case True
  then have s: "split line CHR ''|'' = butlast (spec_fields line)"
    by (simp add: split_spec_fields)
  with assms have "k < length (butlast (spec_fields line))" by simp
  then show ?thesis unfolding s by (rule nth_butlast)
next
  case False
  then show ?thesis by (simp add: split_spec_fields)
qed

lemma number_at_front_strto:
  assumes "number_at_front s neg m"
  shows "strto s = Some (neg, m)"
proof -
  from assms obtain ws sg ds rest where
    s: "s = ws @ sg @ ds @ rest" and ws: "list_all isspace ws"
    and sg: "sg = [] \<or> sg = ''+'' \<or> sg = ''-''" and neg: "neg = (sg = ''-'')"
    and ds: "ds \<noteq> []" and dig: "list_all isdigit ds"
    and rest: "rest = [] \<or> \<not> isdigit (hd rest)" and m: "m = dec_value ds"
    unfolding number_at_front_def by blast
  obtain d dr where d: "ds = d # dr" using ds by (cases ds) auto
  have dd: "isdigit d" using dig d by simp
  have nsp: "\<not> isspace CHR ''+''" "\<not> isspace CHR ''-''"
    by (simp_all add: isspace_def TAB_def NL_def VT_def FF_def CR_def)
  have tw: "takeWhile isdigit (ds @ rest) = ds"
  proof -
    have "takeWhile isdigit rest = []" using rest by (simp add: takeWhile_eq_Nil_iff)
    moreover have "takeWhile isdigit (ds @ rest) = ds @ takeWhile isdigit rest"
      using dig by (intro takeWhile_append2) (simp add: list_all_iff)
    ultimately show ?thesis by simp
  qed
  have dw: "dropWhile isspace s = sg @ ds @ rest"
  proof -
    have "dropWhile isspace s = dropWhile isspace (sg @ ds @ rest)"
      unfolding s using ws by (intro dropWhile_append2) (simp add: list_all_iff)
    also have "\<dots> = sg @ ds @ rest"
      using sg d dd nsp isdigit_not_space [of d] by auto
    finally show ?thesis .
  qed
  from sg show ?thesis
  proof (elim disjE)
    assume e: "sg = []"
    then have "dropWhile isspace s = d # (dr @ rest)" using dw d by simp
    then show ?thesis
      using e neg m ds tw d isdigit_not_sign [OF dd]
      by (simp add: strto_def Let_def)
  next
    assume e: "sg = ''+''"
    then have "dropWhile isspace s = CHR ''+'' # (ds @ rest)" using dw by simp
    then show ?thesis
      using e neg m ds tw by (simp add: strto_def Let_def)
  next
    assume e: "sg = ''-''"
    then have "dropWhile isspace s = CHR ''-'' # (ds @ rest)" using dw by simp
    then show ?thesis
      using e neg m ds tw by (simp add: strto_def Let_def)
  qed
qed

lemma strto_number_at_front:
  assumes "strto s = Some (neg, m)"
  shows "number_at_front s neg m"
proof -
  define ws where "ws = takeWhile isspace s"
  define s1 where "s1 = dropWhile isspace s"
  define sg where "sg = (case s1 of [] \<Rightarrow> [] | c # r \<Rightarrow>
               if c = CHR ''-'' then ''-'' else if c = CHR ''+'' then ''+'' else [])"
  define s2 where "s2 = (case s1 of [] \<Rightarrow> [] | c # r \<Rightarrow>
               if c = CHR ''-'' \<or> c = CHR ''+'' then r else s1)"
  define ds where "ds = takeWhile isdigit s2"
  define rest where "rest = dropWhile isdigit s2"
  have st: "strto s = (if ds = [] then None
      else Some ((case s1 of [] \<Rightarrow> False | c # r \<Rightarrow> c = CHR ''-''), dec_value ds))"
    unfolding strto_def Let_def ds_def s2_def s1_def by (rule refl)
  have ds: "ds \<noteq> []" using assms st by (auto split: if_splits)
  have neg: "neg = (case s1 of [] \<Rightarrow> False | c # r \<Rightarrow> c = CHR ''-'')"
    using assms st ds by simp
  have m: "m = dec_value ds" using assms st ds by simp
  have s1: "s1 = sg @ s2" unfolding sg_def s2_def by (cases s1) auto
  have "s = ws @ s1" unfolding ws_def s1_def by simp
  moreover have "s2 = ds @ rest" unfolding ds_def rest_def by simp
  ultimately have s: "s = ws @ sg @ ds @ rest" using s1 by simp
  have ws: "list_all isspace ws"
    unfolding ws_def by (auto simp: list_all_iff dest: set_takeWhileD)
  have sg: "sg = [] \<or> sg = ''+'' \<or> sg = ''-''" unfolding sg_def by (cases s1) auto
  have neg': "neg = (sg = ''-'')" unfolding neg sg_def by (cases s1) auto
  have dig: "list_all isdigit ds"
    unfolding ds_def by (auto simp: list_all_iff dest: set_takeWhileD)
  have rest: "rest = [] \<or> \<not> isdigit (hd rest)"
    unfolding rest_def using hd_dropWhile [of isdigit s2] by blast
  show ?thesis
    unfolding number_at_front_def using s ws sg neg' ds dig rest m by blast
qed

lemma number_at_front_iff: "number_at_front s neg m \<longleftrightarrow> strto s = Some (neg, m)"
  using number_at_front_strto strto_number_at_front by blast

lemma stoull_fails_iff:
  "isl (stoull s) \<longleftrightarrow> \<not> (\<exists>neg m. number_at_front s neg m \<and> m \<le> 2 ^ 64 - 1)"
  by (cases "strto s") (auto simp: stoull_def number_at_front_iff)

lemma stoull_value:
  "number_at_front s neg m \<Longrightarrow> m \<le> 2 ^ 64 - 1 \<Longrightarrow>
   stoull s = Inr (if neg then - word_of_nat m else word_of_nat m)"
  by (simp add: stoull_def number_at_front_iff)

lemma int_range_iff:
  "(if neg then - int m else int m) < - (2 ^ 31) \<or> 2 ^ 31 - 1 < (if neg then - int m else int m)
     \<longleftrightarrow> \<not> (if neg then m \<le> 2 ^ 31 else m \<le> 2 ^ 31 - 1)"
proof (cases neg)
  case True
  have "- int m < - 2147483648 \<longleftrightarrow> \<not> m \<le> 2147483648" by linarith
  moreover have "\<not> 2147483647 < - int m" by linarith
  ultimately show ?thesis using True by simp
next
  case False
  have "2147483647 < int m \<longleftrightarrow> \<not> m \<le> 2147483647" by linarith
  moreover have "\<not> int m < - 2147483648" by linarith
  ultimately show ?thesis using False by simp
qed

lemma stoi_fails_iff:
  "isl (stoi s) \<longleftrightarrow>
     \<not> (\<exists>neg m. number_at_front s neg m \<and> (if neg then m \<le> 2 ^ 31 else m \<le> 2 ^ 31 - 1))"
proof (cases "strto s")
  case None
  then show ?thesis by (simp add: stoi_def number_at_front_iff)
next
  case (Some p)
  obtain neg m where p: "p = (neg, m)" by (cases p)
  have ex: "(\<exists>neg' m'. number_at_front s neg' m'
        \<and> (if neg' then m' \<le> 2 ^ 31 else m' \<le> 2 ^ 31 - 1))
      \<longleftrightarrow> (if neg then m \<le> 2 ^ 31 else m \<le> 2 ^ 31 - 1)"
    unfolding number_at_front_iff Some p by blast
  have "isl (stoi s) \<longleftrightarrow>
      (if neg then - int m else int m) < - (2 ^ 31) \<or> 2 ^ 31 - 1 < (if neg then - int m else int m)"
    unfolding stoi_def Some p Let_def by (simp only: option.case prod.case sum.disc if_distrib [of isl] if_bool_eq_disj) blast
  then show ?thesis unfolding ex int_range_iff .
qed

lemma stoi_value:
  assumes "number_at_front s neg m" and "if neg then m \<le> 2 ^ 31 else m \<le> 2 ^ 31 - 1"
  shows "stoi s = Inr (word_of_int (if neg then - int m else int m))"
proof -
  have st: "strto s = Some (neg, m)" using assms(1) by (simp add: number_at_front_iff)
  have "\<not> ((if neg then - int m else int m) < - (2 ^ 31)
      \<or> 2 ^ 31 - 1 < (if neg then - int m else int m))"
    unfolding int_range_iff using assms(2) by simp
  then show ?thesis
    unfolding stoi_def st Let_def by (simp only: option.case prod.case if_False)
qed

lemma deserialize_cases:
  "deserialize line =
     (if length (split line CHR ''|'') < 5 then Inl (Runtime_error (''Bad record: '' @ line))
      else case stoull (split line CHR ''|'' ! 0) of
             Inl e \<Rightarrow> Inl e
           | Inr i \<Rightarrow>
               (case stoi (split line CHR ''|'' ! 3) of
                  Inl e \<Rightarrow> Inl e
                | Inr y \<Rightarrow>
                    Inr \<lparr>book_id = i, title = split line CHR ''|'' ! 1,
                         author = split line CHR ''|'' ! 2, year = y,
                         checked_out = (split line CHR ''|'' ! 4 = ''1'')\<rparr>))"
  by (simp add: deserialize_def Let_def)

text \<open>
  C6, as amended. \<^verbatim>\<open>deserialize\<close> throws exactly when the line has fewer than five
  \<open>|\<close>-delimited fields, a fifth field that is empty and ends the line not being
  counted, or the first field (the identity) or the fourth (the year) does not start,
  after optional white space and an optional sign, with a decimal digit, or the number
  its leading digits denote is out of range: above \<open>2^64 - 1\<close> for the identity, outside
  \<open>-2^31 .. 2^31 - 1\<close> for the year. What follows the digits of a numeric field is
  ignored. Otherwise it returns the record built from the first five fields: the
  identity is the number read, negated modulo \<open>2^64\<close> after a minus sign, the year is the
  number read with its sign, and the record is checked out when the fifth field is
  \<open>1\<close>.
\<close>

theorem deserialize_fails_exactly:
  "(isl (deserialize line) \<longleftrightarrow>
      length (spec_fields line) < 5
      \<or> (length (spec_fields line) = 5 \<and> spec_fields line ! 4 = [])
      \<or> \<not> (\<exists>neg m. number_at_front (spec_fields line ! 0) neg m \<and> m \<le> 2 ^ 64 - 1)
      \<or> \<not> (\<exists>neg m. number_at_front (spec_fields line ! 3) neg m
              \<and> (if neg then m \<le> 2 ^ 31 else m \<le> 2 ^ 31 - 1)))
   \<and> (\<not> isl (deserialize line) \<longrightarrow>
        (\<exists>neg i neg' y.
           number_at_front (spec_fields line ! 0) neg i
           \<and> number_at_front (spec_fields line ! 3) neg' y
           \<and> deserialize line =
               Inr \<lparr>book_id = (if neg then - word_of_nat i else word_of_nat i),
                    title = spec_fields line ! 1, author = spec_fields line ! 2,
                    year = word_of_int (if neg' then - int y else int y),
                    checked_out = (spec_fields line ! 4 = ''1'')\<rparr>))"
proof (cases "length (split line CHR ''|'') < 5")
  case True
  then have "isl (deserialize line)" by (simp add: deserialize_cases)
  moreover have "length (spec_fields line) < 5
      \<or> (length (spec_fields line) = 5 \<and> spec_fields line ! 4 = [])"
    using True by (simp only: split_too_short_iff)
  ultimately show ?thesis by blast
next
  case False
  let ?sf = "spec_fields line"
  have p0: "split line CHR ''|'' ! 0 = ?sf ! 0" and p1: "split line CHR ''|'' ! 1 = ?sf ! 1"
    and p2: "split line CHR ''|'' ! 2 = ?sf ! 2" and p3: "split line CHR ''|'' ! 3 = ?sf ! 3"
    and p4: "split line CHR ''|'' ! 4 = ?sf ! 4"
    using False by (simp_all add: split_nth_spec_fields)
  have enough: "\<not> (length ?sf < 5 \<or> (length ?sf = 5 \<and> ?sf ! 4 = []))"
    using False unfolding split_too_short_iff .
  have d: "deserialize line =
      (case stoull (?sf ! 0) of
         Inl e \<Rightarrow> Inl e
       | Inr i \<Rightarrow>
           (case stoi (?sf ! 3) of
              Inl e \<Rightarrow> Inl e
            | Inr y \<Rightarrow>
                Inr \<lparr>book_id = i, title = ?sf ! 1, author = ?sf ! 2, year = y,
                     checked_out = (?sf ! 4 = ''1'')\<rparr>))"
    unfolding deserialize_cases p0 p1 p2 p3 p4 using False by (simp only: if_False)
  have fails: "isl (deserialize line) \<longleftrightarrow> isl (stoull (?sf ! 0)) \<or> isl (stoi (?sf ! 3))"
    unfolding d by (cases "stoull (?sf ! 0)"; cases "stoi (?sf ! 3)") simp_all
  have first: "isl (deserialize line) \<longleftrightarrow>
      length ?sf < 5 \<or> (length ?sf = 5 \<and> ?sf ! 4 = [])
      \<or> \<not> (\<exists>neg m. number_at_front (?sf ! 0) neg m \<and> m \<le> 2 ^ 64 - 1)
      \<or> \<not> (\<exists>neg m. number_at_front (?sf ! 3) neg m
              \<and> (if neg then m \<le> 2 ^ 31 else m \<le> 2 ^ 31 - 1))"
    using enough fails stoull_fails_iff [of "?sf ! 0"] stoi_fails_iff [of "?sf ! 3"] by blast
  have second: "\<exists>neg i neg' y.
           number_at_front (?sf ! 0) neg i \<and> number_at_front (?sf ! 3) neg' y
           \<and> deserialize line =
               Inr \<lparr>book_id = (if neg then - word_of_nat i else word_of_nat i),
                    title = ?sf ! 1, author = ?sf ! 2,
                    year = word_of_int (if neg' then - int y else int y),
                    checked_out = (?sf ! 4 = ''1'')\<rparr>"
    if ok: "\<not> isl (deserialize line)"
  proof -
    from ok fails have "\<not> isl (stoull (?sf ! 0))" and "\<not> isl (stoi (?sf ! 3))" by simp_all
    then obtain neg i neg' y where
      i: "number_at_front (?sf ! 0) neg i" "i \<le> 2 ^ 64 - 1"
      and y: "number_at_front (?sf ! 3) neg' y" "if neg' then y \<le> 2 ^ 31 else y \<le> 2 ^ 31 - 1"
      unfolding stoull_fails_iff stoi_fails_iff by blast
    have "stoull (?sf ! 0) = Inr (if neg then - word_of_nat i else word_of_nat i)"
      using i by (rule stoull_value)
    moreover have "stoi (?sf ! 3) = Inr (word_of_int (if neg' then - int y else int y))"
      using y by (rule stoi_value)
    ultimately have "deserialize line =
        Inr \<lparr>book_id = (if neg then - word_of_nat i else word_of_nat i),
             title = ?sf ! 1, author = ?sf ! 2,
             year = word_of_int (if neg' then - int y else int y),
             checked_out = (?sf ! 4 = ''1'')\<rparr>"
      unfolding d by (simp only: sum.case)
    with i(1) y(1) show ?thesis by blast
  qed
  from first second show ?thesis by blast
qed

theorem deserialize_fails_exactly_witness:
  "isl (deserialize ''3|T|A'') \<and> isl (deserialize ''1|a|b|2000|'')
     \<and> isl (deserialize ''x|T|A|1999|0'') \<and> isl (deserialize ''3|T|A|2147483648|0'')
     \<and> \<not> isl (deserialize ''12abc|T|A| -1999 BC|1'')"
proof -
  have few: "length (spec_fields ''3|T|A'') < 5"
    by (simp add: spec_fields_def)
  have fifth: "length (spec_fields ''1|a|b|2000|'') = 5 \<and> spec_fields ''1|a|b|2000|'' ! 4 = []"
    by (simp add: spec_fields_def)
  have x: "strto ''x'' = None"
    by (simp add: chars_eval strto_def)
  have big: "strto ''2147483648'' = Some (False, 2147483648)"
    by (simp add: chars_eval strto_def dec_value_def)
  have i: "strto ''12abc'' = Some (False, 12)"
    by (simp add: chars_eval strto_def dec_value_def)
  have y: "strto '' -1999 BC'' = Some (True, 1999)"
    by (simp add: chars_eval strto_def dec_value_def)
  have f3: "spec_fields ''x|T|A|1999|0'' ! 0 = ''x''"
    and f4: "spec_fields ''3|T|A|2147483648|0'' ! 3 = ''2147483648''"
    and f5: "length (spec_fields ''12abc|T|A| -1999 BC|1'') = 5"
      "spec_fields ''12abc|T|A| -1999 BC|1'' ! 4 = ''1''"
      "spec_fields ''12abc|T|A| -1999 BC|1'' ! 0 = ''12abc''"
      "spec_fields ''12abc|T|A| -1999 BC|1'' ! 3 = '' -1999 BC''"
    by (simp_all add: spec_fields_def)
  have nox: "\<not> (\<exists>neg m. number_at_front (spec_fields ''x|T|A|1999|0'' ! 0) neg m
      \<and> m \<le> 2 ^ 64 - 1)"
    unfolding f3 number_at_front_iff x by simp
  have nobig: "\<not> (\<exists>neg m. number_at_front (spec_fields ''3|T|A|2147483648|0'' ! 3) neg m
      \<and> (if neg then m \<le> 2 ^ 31 else m \<le> 2 ^ 31 - 1))"
    unfolding f4 number_at_front_iff big by auto
  have oki: "\<exists>neg m. number_at_front (spec_fields ''12abc|T|A| -1999 BC|1'' ! 0) neg m
      \<and> m \<le> 2 ^ 64 - 1"
    unfolding f5 number_at_front_iff i by auto
  have oky: "\<exists>neg m. number_at_front (spec_fields ''12abc|T|A| -1999 BC|1'' ! 3) neg m
      \<and> (if neg then m \<le> 2 ^ 31 else m \<le> 2 ^ 31 - 1)"
    unfolding f5 number_at_front_iff y by auto
  have five: "\<not> length (spec_fields ''12abc|T|A| -1999 BC|1'') < 5"
    and last: "\<not> (length (spec_fields ''12abc|T|A| -1999 BC|1'') = 5
      \<and> spec_fields ''12abc|T|A| -1999 BC|1'' ! 4 = [])"
    unfolding f5 by simp_all
  show ?thesis
    using deserialize_fails_exactly [of "''3|T|A''"] few
      deserialize_fails_exactly [of "''1|a|b|2000|''"] fifth
      deserialize_fails_exactly [of "''x|T|A|1999|0''"] nox
      deserialize_fails_exactly [of "''3|T|A|2147483648|0''"] nobig
      deserialize_fails_exactly [of "''12abc|T|A| -1999 BC|1''"] oki oky five last
    by blast
qed

text \<open>
  Read in the spec's words, the sentence fails both ways. The line \<open>12abc|T|A|1999|0\<close> has a first
  field that is not an integer and is accepted, with the identity 12; the line
  \<open>1|a|b|2000|\<close> has five \<open>|\<close>-delimited fields, the two numeric ones integers, and is
  rejected.
\<close>

theorem deserialize_fails_exactly_counterexample:
  "\<not> spec_integer (spec_fields ''12abc|T|A|1999|0'' ! 0)
   \<and> deserialize ''12abc|T|A|1999|0'' =
       Inr \<lparr>book_id = 12, title = ''T'', author = ''A'', year = 1999, checked_out = False\<rparr>
   \<and> length (spec_fields ''1|a|b|2000|'') = 5
   \<and> spec_integer (spec_fields ''1|a|b|2000|'' ! 0)
   \<and> spec_integer (spec_fields ''1|a|b|2000|'' ! 3)
   \<and> deserialize ''1|a|b|2000|'' = Inl (Runtime_error ''Bad record: 1|a|b|2000|'')"
  by (simp add: spec_fields_def spec_integer_def chars_eval text_eval)

text \<open>
  C9. When \<^verbatim>\<open>split\<close> delivers five or more fields of which the first converts with
  \<^verbatim>\<open>stoull\<close> and the fourth with \<^verbatim>\<open>stoi\<close>, \<^verbatim>\<open>deserialize\<close> returns a record; the
  record does not depend on the fields after the fifth, and it is checked out exactly
  when the fifth field is the string \<open>1\<close>.
\<close>

theorem deserialize_five_or_more:
  assumes "split line CHR ''|'' = p0 # p1 # p2 # p3 # p4 # rest"
    and "stoull p0 = Inr i" and "stoi p3 = Inr y"
  shows "deserialize line =
           Inr \<lparr>book_id = i, title = p1, author = p2, year = y, checked_out = (p4 = ''1'')\<rparr>"
  using assms by (simp add: deserialize_def)

theorem deserialize_five_or_more_witness:
  "deserialize ''7|T|A|1999|true|x|y'' =
     Inr \<lparr>book_id = 7, title = ''T'', author = ''A'', year = 1999, checked_out = False\<rparr>
   \<and> deserialize ''7|T|A|1999|1|x|y'' =
     Inr \<lparr>book_id = 7, title = ''T'', author = ''A'', year = 1999, checked_out = True\<rparr>"
proof -
  have s1: "split ''7|T|A|1999|true|x|y'' CHR ''|'' =
              ''7'' # ''T'' # ''A'' # ''1999'' # ''true'' # [''x'', ''y'']"
    by (simp add: split_def)
  have s2: "split ''7|T|A|1999|1|x|y'' CHR ''|'' =
              ''7'' # ''T'' # ''A'' # ''1999'' # ''1'' # [''x'', ''y'']"
    by (simp add: split_def)
  have i: "stoull ''7'' = Inr 7"
    by (simp add: chars_eval stoull_def strto_def dec_value_def)
  have y: "stoi ''1999'' = Inr 1999"
    by (simp add: chars_eval stoi_def strto_def dec_value_def)
  show ?thesis
    using deserialize_five_or_more [OF s1 i y] deserialize_five_or_more [OF s2 i y] by simp
qed

subsection \<open>Loading\<close>

lemma load_loop_acc:
  "load_loop ls items cerr =
     (items @ fst (load_loop ls [] []), cerr @ snd (load_loop ls [] []))"
proof (induction ls arbitrary: items cerr)
  case Nil
  then show ?case by simp
next
  case (Cons l ls)
  note IH = Cons.IH
  show ?case
  proof (cases "trim l = []")
    case True
    then show ?thesis using IH [of items cerr] by simp
  next
    case False
    show ?thesis
    proof (cases "deserialize (trim l)")
      case (Inl e)
      let ?w = "''Warning: skipping bad record: '' @ what e @ [NL]"
      show ?thesis
        using False Inl IH [of items "cerr @ [?w]"] IH [of "[]" "[?w]"] by simp
    next
      case (Inr p)
      show ?thesis
        using False Inr IH [of "items @ [p]" cerr] IH [of "[p]" "[]"] by simp
    qed
  qed
qed

lemma load_loop_results:
  "map Inr (fst (load_loop ls [] [])) =
     filter (\<lambda>r. \<not> isl r) (map (\<lambda>l. deserialize (trim l)) (filter (\<lambda>l. trim l \<noteq> []) ls))"
proof (induction ls)
  case Nil
  then show ?case by simp
next
  case (Cons l ls)
  show ?case
  proof (cases "trim l = []")
    case True
    with Cons show ?thesis by simp
  next
    case False
    show ?thesis
    proof (cases "deserialize (trim l)")
      case (Inl e)
      with False Cons show ?thesis
        by (simp add: load_loop_acc [of ls "[]" "[w]" for w])
    next
      case (Inr p)
      with False Cons show ?thesis
        by (simp add: load_loop_acc [of ls "[p]" "[]"])
    qed
  qed
qed

lemma load_loop_warnings:
  "length (snd (load_loop ls [] [])) =
     length (filter isl (map (\<lambda>l. deserialize (trim l)) (filter (\<lambda>l. trim l \<noteq> []) ls)))"
proof (induction ls)
  case Nil
  then show ?case by simp
next
  case (Cons l ls)
  show ?case
  proof (cases "trim l = []")
    case True
    with Cons show ?thesis by simp
  next
    case False
    show ?thesis
    proof (cases "deserialize (trim l)")
      case (Inl e)
      with False Cons show ?thesis
        by (simp add: load_loop_acc [of ls "[]" "[w]" for w])
    next
      case (Inr p)
      with False Cons show ?thesis
        by (simp add: load_loop_acc [of ls "[p]" "[]"])
    qed
  qed
qed

text \<open>
  C3. Take a source whose lines, as \<^verbatim>\<open>getline\<close> delivers them, are one well-formed
  record line (not blank once trimmed, and \<^verbatim>\<open>deserialize\<close> returns a record for it) and
  one malformed line (not blank once trimmed, and \<^verbatim>\<open>deserialize\<close> throws on it), in
  either order. Then \<^verbatim>\<open>load_from_file\<close> returns, the store holds exactly the one
  record, and exactly one warning was written, which carries the message of the
  exception. In general the loop goes on after a line that fails to parse: the records
  loaded are the results of all the non-blank lines that parse, in order, and there is
  one warning for each non-blank line that does not.
\<close>

theorem load_one_good_one_bad:
  assumes "files fs filename = Some content"
    and "getline_loop NL [] content = [good, bad] \<or> getline_loop NL [] content = [bad, good]"
    and "trim good \<noteq> []" and "deserialize (trim good) = Inr b"
    and "trim bad \<noteq> []" and "deserialize (trim bad) = Inl e"
  shows "load_from_file prior filename fs =
           ([b], [''Warning: skipping bad record: '' @ what e @ [NL]])
         \<and> (\<forall>ls. map Inr (fst (load_loop ls [] [])) =
                  filter (\<lambda>r. \<not> isl r)
                    (map (\<lambda>l. deserialize (trim l)) (filter (\<lambda>l. trim l \<noteq> []) ls))
                \<and> length (snd (load_loop ls [] [])) =
                  length (filter isl
                    (map (\<lambda>l. deserialize (trim l)) (filter (\<lambda>l. trim l \<noteq> []) ls))))"
proof -
  have "load_from_file prior filename fs =
          ([b], [''Warning: skipping bad record: '' @ what e @ [NL]])"
    using assms by (auto simp: load_from_file_def)
  then show ?thesis
    using load_loop_results load_loop_warnings by blast
qed

theorem load_one_good_one_bad_witness:
  "load_from_file []
     ''db'' \<lparr>files = (\<lambda>n. Some (''  3|T|A|1999|1'' @ [CR, NL] @ ''5|no year'' @ [NL])),
            opens = (\<lambda>n. True), room = (\<lambda>n. None)\<rparr> =
     ([\<lparr>book_id = 3, title = ''T'', author = ''A'', year = 1999, checked_out = True\<rparr>],
      [''Warning: skipping bad record: Bad record: 5|no year'' @ [NL]])"
proof -
  let ?fs = "\<lparr>files = (\<lambda>n. Some (''  3|T|A|1999|1'' @ [CR, NL] @ ''5|no year'' @ [NL])),
            opens = (\<lambda>n. True), room = (\<lambda>n. None)\<rparr>"
  have f: "files ?fs ''db'' = Some (''  3|T|A|1999|1'' @ [CR, NL] @ ''5|no year'' @ [NL])"
    by simp
  have l: "getline_loop NL [] (''  3|T|A|1999|1'' @ [CR, NL] @ ''5|no year'' @ [NL]) =
             [''  3|T|A|1999|1'' @ [CR], ''5|no year'']
           \<or> getline_loop NL [] (''  3|T|A|1999|1'' @ [CR, NL] @ ''5|no year'' @ [NL]) =
             [''5|no year'', ''  3|T|A|1999|1'' @ [CR]]"
    by (simp add: chars_eval)
  have g1: "trim (''  3|T|A|1999|1'' @ [CR]) \<noteq> []"
    by (simp add: chars_eval trim_def)
  have g2: "deserialize (trim (''  3|T|A|1999|1'' @ [CR])) =
              Inr \<lparr>book_id = 3, title = ''T'', author = ''A'', year = 1999, checked_out = True\<rparr>"
    by (simp add: chars_eval text_eval)
  have b1: "trim ''5|no year'' \<noteq> []"
    by (simp add: chars_eval trim_def)
  have b2: "deserialize (trim ''5|no year'') = Inl (Runtime_error ''Bad record: 5|no year'')"
    by (simp add: chars_eval text_eval)
  show ?thesis
    using load_one_good_one_bad [OF f l g1 g2 b1 b2, of "[]"] by simp
qed

text \<open>
  C7, as amended. When the source can be opened, \<^verbatim>\<open>load_from_file\<close> discards what the
  store held and reads the source line by line: the result is that of the loop started
  on the empty store, whatever the store held before. When the source is missing,
  \<^verbatim>\<open>load_from_file\<close> returns without an error and without a warning, and leaves the
  store as it was: empty if it was empty before, as it is when the controller starts.
\<close>

theorem load_clears_or_keeps:
  "(files fs filename = Some content \<longrightarrow>
      load_from_file prior filename fs = load_loop (getline_loop NL [] content) [] []
      \<and> load_from_file prior filename fs = load_from_file [] filename fs)
   \<and> (files fs filename = None \<longrightarrow>
      load_from_file prior filename fs = (prior, [])
      \<and> load_from_file [] filename fs = ([], []))"
  by (simp add: load_from_file_def)

theorem load_clears_or_keeps_witness:
  "load_from_file [\<lparr>book_id = 9, title = ''Old'', author = ''O'', year = 1, checked_out = False\<rparr>]
     ''db'' \<lparr>files = (\<lambda>n. Some (''3|T|A|1999|1'' @ [NL])), opens = (\<lambda>n. True), room = (\<lambda>n. None)\<rparr> =
     ([\<lparr>book_id = 3, title = ''T'', author = ''A'', year = 1999, checked_out = True\<rparr>], [])
   \<and> load_from_file [] ''db'' \<lparr>files = (\<lambda>n. None), opens = (\<lambda>n. True), room = (\<lambda>n. None)\<rparr> = ([], [])"
  using load_clears_or_keeps
    [of "\<lparr>files = (\<lambda>n. Some (''3|T|A|1999|1'' @ [NL])), opens = (\<lambda>n. True), room = (\<lambda>n. None)\<rparr>" "''db''"
        "''3|T|A|1999|1'' @ [NL]"
        "[\<lparr>book_id = 9, title = ''Old'', author = ''O'', year = 1, checked_out = False\<rparr>]"]
    load_clears_or_keeps [of "\<lparr>files = (\<lambda>n. None), opens = (\<lambda>n. True), room = (\<lambda>n. None)\<rparr>" "''db''" _ "[]"]
  by (simp add: chars_eval text_eval)

text \<open>
  With a record in the store and the source missing, the store is not empty after
  \<^verbatim>\<open>load_from_file\<close>: the record is still there.
\<close>

theorem load_clears_or_keeps_counterexample:
  "files \<lparr>files = (\<lambda>n. None), opens = (\<lambda>n. True), room = (\<lambda>n. None)\<rparr> ''db'' = None \<and>
   fst (load_from_file
     [\<lparr>book_id = 9, title = ''Old'', author = ''O'', year = 1, checked_out = False\<rparr>]
     ''db'' \<lparr>files = (\<lambda>n. None), opens = (\<lambda>n. True), room = (\<lambda>n. None)\<rparr>) \<noteq> []"
  by (simp add: load_from_file_def)

subsection \<open>Saving\<close>

text \<open>
  C5, as amended. \<^verbatim>\<open>save_to_file\<close> throws, a \<^verbatim>\<open>runtime_error\<close> naming the file,
  exactly when the sink cannot be opened for writing. When the sink opens and takes every
  byte, the file holds, for every record of the store in the store's order, the record's
  serialization followed by a newline, the line of a record that \<^verbatim>\<open>add\<close> inserted
  coming last, and no other file changes; the lines of the file are then the records'
  serializations, one record per line, provided no title or author holds a newline. When
  the sink opens and does not take every byte, \<^verbatim>\<open>save_to_file\<close> returns all the same
  and the file holds a prefix of that text.
\<close>

theorem save_fails_iff_not_opened:
  "(isl (save_to_file items filename fs) \<longleftrightarrow> \<not> opens fs filename)
   \<and> (\<not> opens fs filename \<longrightarrow>
        save_to_file items filename fs =
          Inl (Runtime_error (''Failed to open '' @ filename @ '' for writing'')))
   \<and> (opens fs filename \<and> takes_all fs filename (concat (map (\<lambda>u. serialize u @ [NL]) items)) \<longrightarrow>
        (\<exists>fs'. save_to_file items filename fs = Inr fs'
           \<and> files fs' filename = Some (concat (map (\<lambda>u. serialize u @ [NL]) items))
           \<and> (\<forall>other. other \<noteq> filename \<longrightarrow> files fs' other = files fs other)
           \<and> ((\<forall>b\<in>set items. NL \<notin> set (title b) \<and> NL \<notin> set (author b)) \<longrightarrow>
                getline_loop NL [] (the (files fs' filename)) = map serialize items)))
   \<and> (opens fs filename \<longrightarrow>
        (\<exists>fs' n. save_to_file items filename fs = Inr fs'
           \<and> files fs' filename = Some (take n (concat (map (\<lambda>u. serialize u @ [NL]) items)))))
   \<and> concat (map (\<lambda>u. serialize u @ [NL]) (add items obj)) =
        concat (map (\<lambda>u. serialize u @ [NL]) items) @ serialize obj @ [NL]"
proof -
  let ?text = "concat (map (\<lambda>u. serialize u @ [NL]) items)"
  have fails: "isl (save_to_file items filename fs) \<longleftrightarrow> \<not> opens fs filename"
    by (simp add: save_to_file_def)
  have thrown: "\<not> opens fs filename \<longrightarrow>
        save_to_file items filename fs =
          Inl (Runtime_error (''Failed to open '' @ filename @ '' for writing''))"
    by (simp add: save_to_file_def)
  have full: "\<exists>fs'. save_to_file items filename fs = Inr fs'
           \<and> files fs' filename = Some ?text
           \<and> (\<forall>other. other \<noteq> filename \<longrightarrow> files fs' other = files fs other)
           \<and> ((\<forall>b\<in>set items. NL \<notin> set (title b) \<and> NL \<notin> set (author b)) \<longrightarrow>
                getline_loop NL [] (the (files fs' filename)) = map serialize items)"
    if "opens fs filename" and "takes_all fs filename ?text"
  proof -
    have "save_to_file items filename fs = Inr (fs\<lparr>files := (files fs)(filename \<mapsto> ?text)\<rparr>)"
      using that by (rule save_to_file_taken)
    then show ?thesis by (simp add: lines_of_saved)
  qed
  have short: "\<exists>fs' n. save_to_file items filename fs = Inr fs'
           \<and> files fs' filename = Some (take n ?text)"
    if "opens fs filename"
  proof -
    obtain n where "reaches fs filename ?text = take n ?text"
      using reaches_prefix by blast
    then show ?thesis
      using that by (auto simp: save_to_file_def write_items_concat)
  qed
  have added: "concat (map (\<lambda>u. serialize u @ [NL]) (add items obj)) =
        ?text @ serialize obj @ [NL]"
    by (simp add: add_def)
  from fails thrown full short added show ?thesis by blast
qed

theorem save_fails_iff_not_opened_witness:
  "isl (save_to_file
          [\<lparr>book_id = 3, title = ''T'', author = ''A'', year = 1999, checked_out = True\<rparr>]
          ''db'' \<lparr>files = (\<lambda>n. None), opens = (\<lambda>n. False), room = (\<lambda>n. None)\<rparr>)
   \<and> (\<exists>fs'. save_to_file
          [\<lparr>book_id = 3, title = ''T'', author = ''A'', year = 1999, checked_out = True\<rparr>,
           \<lparr>book_id = 1, title = ''U'', author = ''B'', year = - 5, checked_out = False\<rparr>]
          ''db'' \<lparr>files = (\<lambda>n. None), opens = (\<lambda>n. True), room = (\<lambda>n. None)\<rparr> = Inr fs'
        \<and> files fs' ''db'' = Some (''3|T|A|1999|1'' @ [NL] @ ''1|U|B|-5|0'' @ [NL])
        \<and> getline_loop NL [] (the (files fs' ''db'')) = [''3|T|A|1999|1'', ''1|U|B|-5|0''])"
proof -
  let ?b3 = "\<lparr>book_id = 3, title = ''T'', author = ''A'', year = 1999, checked_out = True\<rparr>"
  let ?b1 = "\<lparr>book_id = 1, title = ''U'', author = ''B'', year = - 5, checked_out = False\<rparr>"
  have s3: "serialize ?b3 = ''3|T|A|1999|1''" and s1: "serialize ?b1 = ''1|U|B|-5|0''"
    by (simp_all add: chars_eval text_eval)
  have "isl (save_to_file [?b3] ''db''
          \<lparr>files = (\<lambda>n. None), opens = (\<lambda>n. False), room = (\<lambda>n. None)\<rparr>)"
    using save_fails_iff_not_opened
      [of "[?b3]" "''db''" "\<lparr>files = (\<lambda>n. None), opens = (\<lambda>n. False), room = (\<lambda>n. None)\<rparr>" ?b1]
    by simp
  moreover have "\<exists>fs'. save_to_file [?b3, ?b1] ''db''
        \<lparr>files = (\<lambda>n. None), opens = (\<lambda>n. True), room = (\<lambda>n. None)\<rparr> = Inr fs'
      \<and> files fs' ''db'' = Some (''3|T|A|1999|1'' @ [NL] @ ''1|U|B|-5|0'' @ [NL])
      \<and> getline_loop NL [] (the (files fs' ''db'')) = [''3|T|A|1999|1'', ''1|U|B|-5|0'']"
    using save_fails_iff_not_opened
      [of "[?b3, ?b1]" "''db''" "\<lparr>files = (\<lambda>n. None), opens = (\<lambda>n. True), room = (\<lambda>n. None)\<rparr>" ?b1]
    by (auto simp add: s3 s1 takes_all_def NL_def)
  ultimately show ?thesis by blast
qed

text \<open>
  A sink that opens and takes no byte, as a full device does: \<^verbatim>\<open>save_to_file\<close>
  returns without an exception and the file is empty, the record not written. And on a
  sink that can be written, a record whose title holds a newline takes two lines of the
  file, neither of them its serialization.
\<close>

theorem save_fails_iff_not_opened_counterexample:
  "(\<exists>fs'. save_to_file
        [\<lparr>book_id = 3, title = ''T'', author = ''A'', year = 1999, checked_out = True\<rparr>]
        ''db'' \<lparr>files = (\<lambda>n. None), opens = (\<lambda>n. True), room = (\<lambda>n. Some 0)\<rparr> = Inr fs'
      \<and> files fs' ''db'' = Some [])
   \<and> (\<exists>fs'. save_to_file
        [\<lparr>book_id = 1, title = [CHR ''a'', NL, CHR ''b''], author = ''x'', year = 2000,
          checked_out = False\<rparr>]
        ''db'' \<lparr>files = (\<lambda>n. None), opens = (\<lambda>n. True), room = (\<lambda>n. None)\<rparr> = Inr fs'
      \<and> getline_loop NL [] (the (files fs' ''db'')) = [''1|a'', ''b|x|2000|0''])"
  by (simp add: chars_eval text_eval repo_eval)

text \<open>
  C8. For every store, two calls of \<^verbatim>\<open>save_to_file\<close> in a row on a sink that can be
  written, with no change of the store between them, both succeed and leave the same
  bytes in the file; the second call changes nothing.
\<close>

theorem save_twice_same_bytes:
  assumes "opens fs filename"
    and "takes_all fs filename (concat (map (\<lambda>u. serialize u @ [NL]) items))"
  shows "\<exists>fs1 fs2. save_to_file items filename fs = Inr fs1
           \<and> save_to_file items filename fs1 = Inr fs2
           \<and> files fs1 filename = Some (concat (map (\<lambda>u. serialize u @ [NL]) items))
           \<and> files fs2 filename = files fs1 filename \<and> fs2 = fs1"
proof -
  let ?text = "concat (map (\<lambda>u. serialize u @ [NL]) items)"
  let ?fs1 = "fs\<lparr>files := (files fs)(filename \<mapsto> ?text)\<rparr>"
  have first: "save_to_file items filename fs = Inr ?fs1"
    using assms by (rule save_to_file_taken)
  have "opens ?fs1 filename" using assms(1) by simp
  moreover have "takes_all ?fs1 filename ?text" using assms(2) by (simp add: takes_all_def)
  ultimately have "save_to_file items filename ?fs1 =
      Inr (?fs1\<lparr>files := (files ?fs1)(filename \<mapsto> ?text)\<rparr>)"
    by (rule save_to_file_taken)
  then have second: "save_to_file items filename ?fs1 = Inr ?fs1" by simp
  from first second show ?thesis by simp
qed

theorem save_twice_same_bytes_witness:
  "\<exists>fs1 fs2.
     save_to_file [\<lparr>book_id = 3, title = ''T'', author = ''A'', year = 1999, checked_out = True\<rparr>]
       ''db'' \<lparr>files = (\<lambda>n. None), opens = (\<lambda>n. True), room = (\<lambda>n. None)\<rparr> = Inr fs1
     \<and> save_to_file [\<lparr>book_id = 3, title = ''T'', author = ''A'', year = 1999, checked_out = True\<rparr>]
       ''db'' fs1 = Inr fs2
     \<and> files fs1 ''db'' = Some (''3|T|A|1999|1'' @ [NL])
     \<and> files fs2 ''db'' = files fs1 ''db'' \<and> fs2 = fs1"
proof -
  let ?b3 = "\<lparr>book_id = 3, title = ''T'', author = ''A'', year = 1999, checked_out = True\<rparr>"
  have s3: "serialize ?b3 = ''3|T|A|1999|1''"
    by (simp add: chars_eval text_eval)
  show ?thesis
    using save_twice_same_bytes
      [of "\<lparr>files = (\<lambda>n. None), opens = (\<lambda>n. True), room = (\<lambda>n. None)\<rparr>" "''db''" "[?b3]"]
    by (simp add: s3 takes_all_def)
qed

text \<open>
  C10. The sink is opened with \<^verbatim>\<open>ios::trunc\<close>: after a successful save, on a sink that
  takes every byte, the file holds the current records' lines and nothing else, whatever
  it held before, if anything; after a save of the empty store on a sink that opens the
  file is empty. On any sink that opens, nothing of what the file held before is left:
  the file holds a prefix of the current records' lines.
\<close>

theorem save_truncates:
  assumes "opens fs filename"
  shows "(takes_all fs filename (concat (map (\<lambda>u. serialize u @ [NL]) items)) \<longrightarrow>
           (\<exists>fs'. save_to_file items filename (fs\<lparr>files := (files fs)(filename := before)\<rparr>) = Inr fs'
              \<and> files fs' filename = Some (concat (map (\<lambda>u. serialize u @ [NL]) items))))
         \<and> (\<exists>fs'. save_to_file [] filename (fs\<lparr>files := (files fs)(filename := before)\<rparr>) = Inr fs'
            \<and> files fs' filename = Some [])
         \<and> (\<exists>fs' n. save_to_file items filename (fs\<lparr>files := (files fs)(filename := before)\<rparr>) = Inr fs'
            \<and> files fs' filename = Some (take n (concat (map (\<lambda>u. serialize u @ [NL]) items))))"
proof -
  let ?text = "concat (map (\<lambda>u. serialize u @ [NL]) items)"
  let ?fs = "fs\<lparr>files := (files fs)(filename := before)\<rparr>"
  have o: "opens ?fs filename" using assms by simp
  have full: "\<exists>fs'. save_to_file items filename ?fs = Inr fs' \<and> files fs' filename = Some ?text"
    if "takes_all fs filename ?text"
  proof -
    have "takes_all ?fs filename ?text" using that by (simp add: takes_all_def)
    with o have "save_to_file items filename ?fs =
        Inr (?fs\<lparr>files := (files ?fs)(filename \<mapsto> ?text)\<rparr>)"
      by (rule save_to_file_taken)
    then show ?thesis by simp
  qed
  have none: "\<exists>fs'. save_to_file [] filename ?fs = Inr fs' \<and> files fs' filename = Some []"
    using o by (simp add: save_to_file_def reaches_def split: option.splits)
  have short: "\<exists>fs' n. save_to_file items filename ?fs = Inr fs'
      \<and> files fs' filename = Some (take n ?text)"
  proof -
    obtain n where "reaches ?fs filename ?text = take n ?text"
      using reaches_prefix by blast
    then show ?thesis
      using o by (auto simp: save_to_file_def write_items_concat)
  qed
  from full none short show ?thesis by blast
qed

theorem save_truncates_witness:
  "(\<exists>fs'. save_to_file
       [\<lparr>book_id = 3, title = ''T'', author = ''A'', year = 1999, checked_out = True\<rparr>] ''db''
       \<lparr>files = (\<lambda>n. Some ''9|Old|O|1|0''), opens = (\<lambda>n. True), room = (\<lambda>n. None)\<rparr> = Inr fs'
     \<and> files fs' ''db'' = Some (''3|T|A|1999|1'' @ [NL]))
   \<and> (\<exists>fs'. save_to_file [] ''db''
       \<lparr>files = (\<lambda>n. Some ''9|Old|O|1|0''), opens = (\<lambda>n. True), room = (\<lambda>n. None)\<rparr> = Inr fs'
     \<and> files fs' ''db'' = Some [])"
proof -
  let ?b3 = "\<lparr>book_id = 3, title = ''T'', author = ''A'', year = 1999, checked_out = True\<rparr>"
  let ?fs = "\<lparr>files = (\<lambda>n. Some ''9|Old|O|1|0''), opens = (\<lambda>n. True), room = (\<lambda>n. None)\<rparr>"
  have s3: "serialize ?b3 = ''3|T|A|1999|1''"
    by (simp add: chars_eval text_eval)
  have same: "?fs\<lparr>files := (files ?fs)(''db'' := Some ''9|Old|O|1|0'')\<rparr> = ?fs"
    by (simp add: fun_upd_idem)
  have o: "opens ?fs ''db''" by simp
  show ?thesis
    using save_truncates [OF o, of "[?b3]" "Some ''9|Old|O|1|0''"]
    by (simp only: same) (auto simp add: s3 takes_all_def)
qed

subsection \<open>The identity counter\<close>

lemma unat_add_one:
  fixes x :: "64 word"
  assumes "x \<noteq> - 1"
  shows "unat (x + 1) = unat x + 1"
proof -
  have lt: "unat x < 2 ^ 64" using unsigned_less [of x, where 'a = nat] by simp
  have "unat x \<noteq> 2 ^ 64 - 1"
  proof
    assume "unat x = 2 ^ 64 - 1"
    then have "word_of_nat (unat x) = (word_of_nat (2 ^ 64 - 1) :: 64 word)" by simp
    then have "x = - 1" by simp
    with assms show False by simp
  qed
  with lt have "unat x + 1 < 2 ^ 64" by simp
  then show ?thesis by (simp add: unat_word_ariths)
qed

lemma compute_next_id_max:
  assumes "\<forall>b\<in>set items. book_id b \<noteq> - 1"
  shows "unat (compute_next_id items n) =
           Max (insert (unat n) ((\<lambda>b. unat (book_id b) + 1) ` set items))"
  using assms
proof (induction items arbitrary: n)
  case Nil
  then show ?case by simp
next
  case (Cons p ps)
  let ?S = "(\<lambda>b. unat (book_id b) + 1) ` set ps"
  have fin: "finite ?S" by simp
  have p: "book_id p \<noteq> - 1" using Cons.prems by simp
  have suc: "unat (book_id p + 1) = unat (book_id p) + 1"
    using p by (rule unat_add_one)
  have IH: "\<And>m. unat (compute_next_id ps m) = Max (insert (unat m) ?S)"
    using Cons by simp
  show ?case
  proof (cases "book_id p \<ge> n")
    case True
    let ?A = "insert (unat (book_id p) + 1) ?S"
    have le: "unat n \<le> unat (book_id p)" using True by (simp add: word_le_nat_alt)
    have "unat (book_id p) + 1 \<le> Max ?A" by (rule Max_ge) (simp_all add: fin)
    with le have "max (unat n) (Max ?A) = Max ?A" by linarith
    moreover have "Max (insert (unat n) ?A) = max (unat n) (Max ?A)"
      by (rule Max_insert) (simp_all add: fin)
    moreover have "unat (compute_next_id (p # ps) n) = Max ?A"
      using True IH [of "book_id p + 1"] suc by simp
    ultimately show ?thesis by (simp add: insert_commute)
  next
    case False
    let ?B = "insert (unat n) ?S"
    have gt: "unat (book_id p) + 1 \<le> unat n" using False by (simp add: word_le_nat_alt)
    have "unat n \<le> Max ?B" by (rule Max_ge) (simp_all add: fin)
    with gt have "max (unat (book_id p) + 1) (Max ?B) = Max ?B" by linarith
    moreover have "Max (insert (unat (book_id p) + 1) ?B) = max (unat (book_id p) + 1) (Max ?B)"
      by (rule Max_insert) (simp_all add: fin)
    moreover have "unat (compute_next_id (p # ps) n) = Max ?B"
      using False IH [of n] by simp
    ultimately show ?thesis by (simp add: insert_commute)
  qed
qed

lemma Max_insert_one_Suc:
  assumes "finite A" and "A \<noteq> {}"
  shows "Max (insert (Suc 0) ((\<lambda>x. x + 1) ` A)) = 1 + Max A"
proof -
  have "Max ((\<lambda>x. x + 1) ` A) = Max A + 1"
    using assms by (simp add: mono_Max_commute [symmetric] mono_def)
  moreover have "Suc 0 \<le> Max ((\<lambda>x. x + 1) ` A)"
    using assms calculation by simp
  ultimately show ?thesis using assms by (simp add: max_def)
qed

text \<open>
  C4, as amended. When the controller has loaded its records at startup and none of
  them has the largest identity \<open>2^64 - 1\<close>, the counter \<^verbatim>\<open>next_id_\<close> is 1 plus the
  largest identity loaded, or 1 when nothing was loaded. A file with the identities 3, 7
  and 2 sets it to 8.
\<close>

theorem next_id_seeded:
  assumes "Library_ctor file fs = (lib, cerr)"
    and "\<forall>b\<in>set (repo lib). book_id b \<noteq> - 1"
  shows "repo lib = fst (load_from_file [] file fs)
         \<and> unat (next_id lib) =
             (if repo lib = [] then 1 else 1 + Max ((\<lambda>b. unat (book_id b)) ` set (repo lib)))"
proof -
  have r: "repo lib = fst (load_from_file [] file fs)"
    and n: "next_id lib = compute_next_id (repo lib) 1"
    using assms(1) by (auto simp: Library_ctor_def all_items_def split: prod.splits)
  show ?thesis
  proof (cases "repo lib = []")
    case True
    with r n show ?thesis by simp
  next
    case False
    let ?A = "(\<lambda>b. unat (book_id b)) ` set (repo lib)"
    have "unat (next_id lib) =
            Max (insert (unat (1 :: 64 word)) ((\<lambda>b. unat (book_id b) + 1) ` set (repo lib)))"
      unfolding n using assms(2) by (rule compute_next_id_max)
    also have "(\<lambda>b. unat (book_id b) + 1) ` set (repo lib) = (\<lambda>x. x + 1) ` ?A"
      by (simp add: image_image)
    also have "Max (insert (unat (1 :: 64 word)) ((\<lambda>x. x + 1) ` ?A)) = 1 + Max ?A"
      using False Max_insert_one_Suc [of ?A] by simp
    finally show ?thesis using r False by simp
  qed
qed

theorem next_id_seeded_witness:
  "next_id (fst (Library_ctor ''library_db.txt''
      \<lparr>files = (\<lambda>n. Some (''3|A|a|2000|0'' @ [NL] @ ''7|B|b|2001|1'' @ [NL]
                              @ ''2|C|c|1999|0'' @ [NL])),
       opens = (\<lambda>n. True), room = (\<lambda>n. None)\<rparr>)) = 8"
proof -
  let ?fs = "\<lparr>files = (\<lambda>n. Some (''3|A|a|2000|0'' @ [NL] @ ''7|B|b|2001|1'' @ [NL]
                              @ ''2|C|c|1999|0'' @ [NL])),
       opens = (\<lambda>n. True), room = (\<lambda>n. None)\<rparr>"
  let ?items = "[\<lparr>book_id = 3, title = ''A'', author = ''a'', year = 2000, checked_out = False\<rparr>,
       \<lparr>book_id = 7, title = ''B'', author = ''b'', year = 2001, checked_out = True\<rparr>,
       \<lparr>book_id = 2, title = ''C'', author = ''c'', year = 1999, checked_out = False\<rparr>]"
  have loaded: "load_from_file [] ''library_db.txt'' ?fs = (?items, [])"
    by (simp add: chars_eval text_eval load_from_file_def)
  obtain lib cerr where ctor: "Library_ctor ''library_db.txt'' ?fs = (lib, cerr)"
    by (cases "Library_ctor ''library_db.txt'' ?fs") blast
  then have r: "repo lib = ?items"
    using loaded by (auto simp: Library_ctor_def)
  then have ok: "\<forall>b\<in>set (repo lib). book_id b \<noteq> - 1"
    by simp
  have "unat (next_id lib) = 8"
    using next_id_seeded [OF ctor ok] r by simp
  then have "word_of_nat (unat (next_id lib)) = (word_of_nat 8 :: 64 word)"
    by (simp only:)
  then have "next_id lib = 8"
    by simp
  with ctor show ?thesis by simp
qed

text \<open>
  A file with the identities \<open>2^64 - 1\<close> and 3: the addition wraps to 0 at the first
  record, and the counter ends at 4, which is not 1 plus the largest identity, neither
  as a number nor in 64-bit arithmetic.
\<close>

theorem next_id_seeded_counterexample:
  "map book_id (repo (fst (Library_ctor ''library_db.txt''
      \<lparr>files = (\<lambda>n. Some (''18446744073709551615|A|a|2000|0'' @ [NL]
                              @ ''3|B|b|2001|1'' @ [NL])),
       opens = (\<lambda>n. True), room = (\<lambda>n. None)\<rparr>))) = [18446744073709551615, 3]
   \<and> next_id (fst (Library_ctor ''library_db.txt''
      \<lparr>files = (\<lambda>n. Some (''18446744073709551615|A|a|2000|0'' @ [NL]
                              @ ''3|B|b|2001|1'' @ [NL])),
       opens = (\<lambda>n. True), room = (\<lambda>n. None)\<rparr>)) = 4
   \<and> (4 :: 64 word) \<noteq> 1 + Max {18446744073709551615, 3}
   \<and> unat (4 :: 64 word) \<noteq> 1 + Max {unat (18446744073709551615 :: 64 word), unat (3 :: 64 word)}"
  by (simp add: chars_eval text_eval repo_eval)

subsection \<open>Shutdown\<close>

lemma step_stop_flag: "stop_flag s \<Longrightarrow> stop_flag (step a s)"
  by (cases a) (auto simp: thread_step_def dtor_step_def split: loop_pc.splits dtor_pc.splits)

lemma run_stop_flag: "stop_flag s \<Longrightarrow> stop_flag (run sched s)"
  by (induction sched arbitrary: s) (simp_all add: step_stop_flag)

lemma run_append: "run (xs @ ys) s = run ys (run xs s)"
  by (induction xs arbitrary: s) simp_all

text \<open>Saves still to come once the flag is set: one if the thread is past the test, else none.\<close>

lemma step_saves_stopped:
  "stop_flag s \<Longrightarrow>
   saves (step a s) + (if loop (step a s) = At_sleep \<or> loop (step a s) = At_save then 1 else 0)
     \<le> saves s + (if loop s = At_sleep \<or> loop s = At_save then 1 else 0)"
  by (cases a) (auto simp: thread_step_def dtor_step_def split: loop_pc.splits dtor_pc.splits)

lemma run_saves_stopped:
  "stop_flag s \<Longrightarrow>
   saves (run sched s)
     + (if loop (run sched s) = At_sleep \<or> loop (run sched s) = At_save then 1 else 0)
     \<le> saves s + (if loop s = At_sleep \<or> loop s = At_save then 1 else 0)"
proof (induction sched arbitrary: s)
  case Nil
  then show ?case by simp
next
  case (Cons a sched)
  have "stop_flag (step a s)" using Cons.prems by (rule step_stop_flag)
  then have "saves (run sched (step a s))
     + (if loop (run sched (step a s)) = At_sleep \<or> loop (run sched (step a s)) = At_save
        then 1 else 0)
     \<le> saves (step a s)
        + (if loop (step a s) = At_sleep \<or> loop (step a s) = At_save then 1 else 0)"
    by (rule Cons.IH)
  also have "\<dots> \<le> saves s + (if loop s = At_sleep \<or> loop s = At_save then 1 else 0)"
    using Cons.prems by (rule step_saves_stopped)
  finally show ?case by simp
qed

lemma step_saves_mono: "saves s \<le> saves (step a s)"
  by (cases a) (auto simp: thread_step_def dtor_step_def split: loop_pc.splits dtor_pc.splits)

lemma run_saves_mono: "saves s \<le> saves (run sched s)"
proof (induction sched arbitrary: s)
  case Nil
  then show ?case by simp
next
  case (Cons a sched)
  have "saves s \<le> saves (step a s)" by (rule step_saves_mono)
  also have "\<dots> \<le> saves (run sched (step a s))" by (rule Cons.IH)
  finally show ?case by simp
qed

lemma step_finished: "loop s = Finished \<Longrightarrow> loop (step a s) = Finished \<and> saves (step a s) = saves s"
  by (cases a) (auto simp: thread_step_def dtor_step_def split: dtor_pc.splits)

lemma run_finished: "loop s = Finished \<Longrightarrow> loop (run sched s) = Finished \<and> saves (run sched s) = saves s"
proof (induction sched arbitrary: s)
  case Nil
  then show ?case by simp
next
  case (Cons a sched)
  then show ?case using step_finished [of s a] by simp
qed

text \<open>The join returns only after the thread has left its loop.\<close>

lemma step_joined_inv:
  "(dtor s = Joined \<longrightarrow> loop s = Finished) \<Longrightarrow>
   (dtor (step a s) = Joined \<longrightarrow> loop (step a s) = Finished)"
  by (cases a) (auto simp: thread_step_def dtor_step_def split: loop_pc.splits dtor_pc.splits)

lemma run_joined_inv:
  "(dtor s = Joined \<longrightarrow> loop s = Finished) \<Longrightarrow>
   (dtor (run sched s) = Joined \<longrightarrow> loop (run sched s) = Finished)"
proof (induction sched arbitrary: s)
  case Nil
  then show ?case by simp
next
  case (Cons a sched)
  have "dtor (step a s) = Joined \<longrightarrow> loop (step a s) = Finished"
    using Cons.prems by (rule step_joined_inv)
  then show ?case using Cons.IH [of "step a s"] by simp
qed

lemma step_to_go:
  "stop_flag s \<Longrightarrow>
   to_go (loop (step a s)) = (if a = Autosave_thread then to_go (loop s) - 1 else to_go (loop s))"
  by (cases a; cases "loop s")
    (auto simp: thread_step_def dtor_step_def split: dtor_pc.splits)

lemma run_to_go:
  "stop_flag s \<Longrightarrow> to_go (loop (run sched s)) = to_go (loop s) - thread_steps sched"
proof (induction sched arbitrary: s)
  case Nil
  then show ?case by (simp add: thread_steps_def)
next
  case (Cons a sched)
  have "stop_flag (step a s)" using Cons.prems by (rule step_stop_flag)
  then have "to_go (loop (run sched (step a s))) = to_go (loop (step a s)) - thread_steps sched"
    by (rule Cons.IH)
  then show ?case
    using step_to_go [OF Cons.prems, of a] by (simp add: thread_steps_def)
qed

lemma to_go_zero: "to_go pc = 0 \<longleftrightarrow> pc = Finished"
  by (cases pc) simp_all

lemma to_go_le: "to_go pc \<le> 3"
  by (cases pc) simp_all

text \<open>
  C2, as amended. Once the stop flag is set, the autosave loop makes at most one more
  save, the one that follows a sleep or a wake already under way, and none if it was at
  the test of the flag; it then finds the flag set at its next test and leaves the loop,
  after at most three steps of its own. Once the destructor's join has returned, the loop
  has been left and the thread makes no further save, whatever runs afterwards.
\<close>

theorem stop_at_most_one_more_save:
  "(stop_flag s \<longrightarrow>
      saves (run sched s) \<le> saves s + (if loop s = At_sleep \<or> loop s = At_save then 1 else 0)
      \<and> (3 \<le> thread_steps sched \<longrightarrow> loop (run sched s) = Finished))
   \<and> (dtor (run before started) = Joined \<longrightarrow>
      loop (run before started) = Finished
      \<and> saves (run (before @ after) started) = saves (run before started))"
proof -
  have one: "saves (run sched s) \<le> saves s + (if loop s = At_sleep \<or> loop s = At_save then 1 else 0)"
    if "stop_flag s"
  proof -
    have "saves (run sched s) \<le> saves (run sched s)
        + (if loop (run sched s) = At_sleep \<or> loop (run sched s) = At_save then 1 else 0)"
      by simp
    also have "\<dots> \<le> saves s + (if loop s = At_sleep \<or> loop s = At_save then 1 else 0)"
      using that by (rule run_saves_stopped)
    finally show ?thesis .
  qed
  have exits: "loop (run sched s) = Finished" if "stop_flag s" and "3 \<le> thread_steps sched"
  proof -
    have "to_go (loop (run sched s)) = to_go (loop s) - thread_steps sched"
      using that(1) by (rule run_to_go)
    then have "to_go (loop (run sched s)) = 0"
      using that(2) to_go_le [of "loop s"] by simp
    then show ?thesis by (simp add: to_go_zero)
  qed
  have joined: "loop (run before started) = Finished
      \<and> saves (run (before @ after) started) = saves (run before started)"
    if j: "dtor (run before started) = Joined"
  proof -
    have "dtor started = Joined \<longrightarrow> loop started = Finished"
      by (simp add: started_def)
    then have "dtor (run before started) = Joined \<longrightarrow> loop (run before started) = Finished"
      by (rule run_joined_inv)
    with j have fin: "loop (run before started) = Finished" by simp
    then show ?thesis
      using run_finished [of "run before started" after] by (simp add: run_append)
  qed
  from one exits joined show ?thesis by blast
qed

theorem stop_at_most_one_more_save_witness:
  "stop_flag (run [Autosave_thread, Destructor] started)
   \<and> saves (run [Autosave_thread, Autosave_thread, Autosave_thread]
        (run [Autosave_thread, Destructor] started)) \<le> 1
   \<and> loop (run [Autosave_thread, Autosave_thread, Autosave_thread]
        (run [Autosave_thread, Destructor] started)) = Finished
   \<and> dtor (run [Autosave_thread, Destructor, Autosave_thread, Autosave_thread,
        Autosave_thread, Destructor] started) = Joined
   \<and> saves (run ([Autosave_thread, Destructor, Autosave_thread, Autosave_thread,
        Autosave_thread, Destructor] @ [Autosave_thread, Autosave_thread, Destructor]) started) = 1"
  using stop_at_most_one_more_save
    [of "run [Autosave_thread, Destructor] started"
        "[Autosave_thread, Autosave_thread, Autosave_thread]"
        "[Autosave_thread, Destructor, Autosave_thread, Autosave_thread, Autosave_thread,
          Destructor]"
        "[Autosave_thread, Autosave_thread, Destructor]"]
  by (simp add: started_def thread_step_def dtor_step_def thread_steps_def)

text \<open>
  The thread tests the flag and goes to sleep; the destructor sets the flag, no save
  having been made; the thread wakes and calls \<^verbatim>\<open>save()\<close> before it tests the flag
  again.
\<close>

theorem stop_at_most_one_more_save_counterexample:
  "stop_flag (run [Autosave_thread, Destructor] started)
   \<and> saves (run [Autosave_thread, Destructor] started) = 0
   \<and> loop (run [Autosave_thread, Destructor] started) = At_sleep
   \<and> saves (run [Autosave_thread, Destructor, Autosave_thread, Autosave_thread] started) = 1"
  by (simp add: started_def thread_step_def dtor_step_def)

end
